theory Spec2Isabelle
  imports Main "HOL-Library.Word"
begin

chapter \<open>The model: definitions translated from the sources\<close>

section \<open>Sensor requests (core/sensors.cc)\<close>

text \<open>
  \<^verbatim>\<open>SensorMode\<close> is an enum class; \<^verbatim>\<open>Nanoseconds\<close> wraps an unsigned 64-bit count, so
  \<^verbatim>\<open>std::min\<close> on it is the unsigned minimum of \<open>64 word\<close>.
\<close>

datatype SensorMode =
  Off | ActiveContinuous | ActiveOneShot | PassiveContinuous | PassiveOneShot

type_synonym Nanoseconds = "64 word"

record SensorRequest =
  mInterval :: Nanoseconds
  mLatency :: Nanoseconds
  mMode :: SensorMode

text \<open>\<^verbatim>\<open>SensorRequest::SensorRequest(mode, interval, latency)\<close>\<close>

definition mkSensorRequest :: "SensorMode \<Rightarrow> Nanoseconds \<Rightarrow> Nanoseconds \<Rightarrow> SensorRequest" where
  "mkSensorRequest mode interval latency =
     \<lparr>mInterval = interval, mLatency = latency, mMode = mode\<rparr>"

text \<open>\<^verbatim>\<open>SensorRequest::SensorRequest()\<close>: mode Off, interval 0, latency 0.\<close>

definition defaultSensorRequest :: SensorRequest where
  "defaultSensorRequest = mkSensorRequest Off 0 0"

definition isEquivalentTo :: "SensorRequest \<Rightarrow> SensorRequest \<Rightarrow> bool" where
  "isEquivalentTo this request =
     (mMode this = mMode request
      \<and> mInterval this = mInterval request
      \<and> mLatency this = mLatency request)"

definition generateIntersectionOf :: "SensorRequest \<Rightarrow> SensorRequest \<Rightarrow> SensorRequest" where
  "generateIntersectionOf this request =
     (let minimalInterval = min (mInterval this) (mInterval request);
          minimalLatency = min (mLatency this) (mLatency request);
          maximalSensorMode =
            (if mMode this = ActiveContinuous \<or> mMode request = ActiveContinuous
               then ActiveContinuous
             else if mMode this = ActiveOneShot \<or> mMode request = ActiveOneShot
               then ActiveOneShot
             else if mMode this = PassiveContinuous \<or> mMode request = PassiveContinuous
               then PassiveContinuous
             else if mMode this = PassiveOneShot \<or> mMode request = PassiveOneShot
               then PassiveOneShot
             else Off)
      in mkSensorRequest maximalSensorMode minimalInterval minimalLatency)"

section \<open>Host socket client: reconnect (host/common/socket_client.cc)\<close>

text \<open>
  \<^verbatim>\<open>SocketClient::reconnect\<close> waits on a condition variable, then calls \<^verbatim>\<open>tryConnect\<close>. The
  two things it reads from outside are the shutdown flag seen after the wait of iteration
  \<open>k\<close> and the outcome of the connection attempt of iteration \<open>k\<close> (iterations counted
  from 0): they are the environment. What it does is recorded as a list of events.
  \<^verbatim>\<open>delay\<close> is a \<^verbatim>\<open>duration<int32_t, std::milli>\<close>: a 32-bit word read as signed;
  \<^verbatim>\<open>retryLimit\<close> is an \<^verbatim>\<open>int\<close> that only counts down from 40.
\<close>

datatype sc_event = WaitFor "32 word" | TryConnect bool | OnSocketReconnected

record reconnect_env =
  shutdownSeen :: "nat \<Rightarrow> bool"
  connectOk :: "nat \<Rightarrow> bool"

text \<open>\<^verbatim>\<open>kMaxDelay = std::chrono::minutes(5)\<close>, in milliseconds.\<close>

definition kMaxDelay :: "32 word" where
  "kMaxDelay = 300000"

text \<open>\<^verbatim>\<open>delay *= 2; if (delay > kMaxDelay) delay = kMaxDelay;\<close>\<close>

definition nextDelay :: "32 word \<Rightarrow> 32 word" where
  "nextDelay delay =
     (let delay2 = delay * 2
      in if sint delay2 > sint kMaxDelay then kMaxDelay else delay2)"

text \<open>
  The loop \<^verbatim>\<open>while (--retryLimit > 0) { ... }\<close> with its local variables as arguments, the
  number \<open>k\<close> of the iteration (which indexes the environment) and the events so far.
\<close>

function reconnect_loop ::
  "reconnect_env \<Rightarrow> int \<Rightarrow> 32 word \<Rightarrow> nat \<Rightarrow> sc_event list \<Rightarrow> bool \<times> sc_event list" where
  "reconnect_loop env retryLimit delay k tr =
     (let retryLimit' = retryLimit - 1 in
      if retryLimit' > 0 then
        (let tr1 = tr @ [WaitFor delay] in
         if shutdownSeen env k then (False, tr1)
         else if \<not> connectOk env k then
           reconnect_loop env retryLimit' (nextDelay delay) (Suc k) (tr1 @ [TryConnect False])
         else (True, tr1 @ [TryConnect True, OnSocketReconnected]))
      else (False, tr))"
  by pat_completeness auto
termination
  by (relation "measure (\<lambda>(env, retryLimit, delay, k, tr). nat retryLimit)") auto

declare reconnect_loop.simps [simp del]

definition reconnect :: "reconnect_env \<Rightarrow> bool \<times> sc_event list" where
  "reconnect env = reconnect_loop env 40 500 0 []"

text \<open>Readings of a run: the delays waited, the attempts' outcomes, the callback's calls.\<close>

fun waits :: "sc_event list \<Rightarrow> 32 word list" where
  "waits [] = []"
| "waits (WaitFor d # tr) = d # waits tr"
| "waits (_ # tr) = waits tr"

fun attempts :: "sc_event list \<Rightarrow> bool list" where
  "attempts [] = []"
| "attempts (TryConnect b # tr) = b # attempts tr"
| "attempts (_ # tr) = attempts tr"

definition reconnectedCalls :: "sc_event list \<Rightarrow> nat" where
  "reconnectedCalls tr = length (filter (\<lambda>e. e = OnSocketReconnected) tr)"

text \<open>
  The backoff of the specification, in closed form: the delay before the attempt of iteration
  \<open>k\<close> (counted from 0) starts at 500 ms, doubles, and is capped at 5 minutes. A round that
  fails is a wait followed by a failed attempt.
\<close>

definition backoffDelay :: "nat \<Rightarrow> 32 word" where
  "backoffDelay k = word_of_int (min (500 * 2 ^ k) 300000)"

definition failedRounds :: "nat \<Rightarrow> nat \<Rightarrow> sc_event list" where
  "failedRounds k m = concat (map (\<lambda>j. [WaitFor (backoffDelay j), TryConnect False]) [k..<m])"

section \<open>Request multiplexer (chre/core/request_multiplexer.h)\<close>

text \<open>
  Modelled from the spec: the \<^verbatim>\<open>RequestMultiplexer\<close> template is not among the sources
  (only its test, core/tests/request_multiplexer_test.cc, is). The specification describes it
  as an ordered sequence of requests plus a cached maximal, where adding appends the request,
  recomputes the maximal as the fold of the merge from the identity and sets the flag if it
  changed, and removing erases the request at an index and recomputes.

  The request type is a parameter. Its operations, named as the test's \<^verbatim>\<open>DummyRequest\<close>
  names them, are passed as a record: the default constructor, \<^verbatim>\<open>isEquivalentTo\<close> and
  \<^verbatim>\<open>generateIntersectionOf\<close>.
\<close>

record 'r request_ops =
  defaultRequest :: 'r
  equivalentTo :: "'r \<Rightarrow> 'r \<Rightarrow> bool"
  intersectionOf :: "'r \<Rightarrow> 'r \<Rightarrow> 'r"

record 'r RequestMultiplexer =
  mRequests :: "'r list"
  mCurrentMaximalRequest :: 'r

text \<open>
  Modelled from the spec: a new multiplexer holds no request, and its cached maximal is the
  default-constructed request (the identity of the merge); the getters are the ones the test
  calls.
\<close>

definition newRequestMultiplexer :: "'r request_ops \<Rightarrow> 'r RequestMultiplexer" where
  "newRequestMultiplexer ops = \<lparr>mRequests = [], mCurrentMaximalRequest = defaultRequest ops\<rparr>"

definition getRequests :: "'r RequestMultiplexer \<Rightarrow> 'r list" where
  "getRequests m = mRequests m"

definition getCurrentMaximalRequest :: "'r RequestMultiplexer \<Rightarrow> 'r" where
  "getCurrentMaximalRequest m = mCurrentMaximalRequest m"

text \<open>
  Modelled from the spec: ``recompute maximal = fold(merge); set flag if changed''. The fold
  starts from the default-constructed request and merges the stored requests in order; the
  flag compares the old and the new maximal with the request type's equivalence.
\<close>

definition updateMaximalRequest ::
  "'r request_ops \<Rightarrow> 'r RequestMultiplexer \<Rightarrow> bool \<times> 'r RequestMultiplexer" where
  "updateMaximalRequest ops m =
     (let maximalRequest = foldl (intersectionOf ops) (defaultRequest ops) (mRequests m);
          maximalRequestChanged = \<not> equivalentTo ops (mCurrentMaximalRequest m) maximalRequest
      in (maximalRequestChanged, m\<lparr>mCurrentMaximalRequest := maximalRequest\<rparr>))"

text \<open>
  Modelled from the spec: \<open>add(r) -> (ok, maximal_changed)\<close>. The request is appended;
  \<open>stored\<close> says whether the container could take it (the test asserts that it can). When
  it cannot, nothing changes and the flag is not set: the result carries \<open>None\<close> for it.
\<close>

definition addRequest ::
  "'r request_ops \<Rightarrow> bool \<Rightarrow> 'r \<Rightarrow> 'r RequestMultiplexer
     \<Rightarrow> bool \<times> bool option \<times> 'r RequestMultiplexer" where
  "addRequest ops stored request m =
     (if stored then
        (let (changed, m') = updateMaximalRequest ops (m\<lparr>mRequests := mRequests m @ [request]\<rparr>)
         in (True, Some changed, m'))
      else (False, None, m))"

text \<open>
  Modelled from the spec: \<open>remove(index) -> maximal_changed\<close>: erase, recompute. Erasing at
  an index beyond the end leaves the sequence as it is.
\<close>

definition eraseAt :: "nat \<Rightarrow> 'a list \<Rightarrow> 'a list" where
  "eraseAt index xs = take index xs @ drop (Suc index) xs"

definition removeRequest ::
  "'r request_ops \<Rightarrow> nat \<Rightarrow> 'r RequestMultiplexer \<Rightarrow> bool \<times> 'r RequestMultiplexer" where
  "removeRequest ops index m =
     updateMaximalRequest ops (m\<lparr>mRequests := eraseAt index (mRequests m)\<rparr>)"

text \<open>Sequences of operations on a multiplexer, applied from left to right.\<close>

datatype 'r mux_op = AddRequest bool 'r | RemoveRequest nat

fun mux_step ::
  "'r request_ops \<Rightarrow> 'r mux_op \<Rightarrow> 'r RequestMultiplexer \<Rightarrow> bool option \<times> 'r RequestMultiplexer" where
  "mux_step ops (AddRequest stored r) m = snd (addRequest ops stored r m)"
| "mux_step ops (RemoveRequest index) m =
     (let (changed, m') = removeRequest ops index m in (Some changed, m'))"

definition mux_run ::
  "'r request_ops \<Rightarrow> 'r mux_op list \<Rightarrow> 'r RequestMultiplexer \<Rightarrow> 'r RequestMultiplexer" where
  "mux_run ops os m = foldl (\<lambda>m' o'. snd (mux_step ops o' m')) m os"

text \<open>The test's request type: a priority, merged by maximum.\<close>

definition dummyOps :: "int request_ops" where
  "dummyOps = \<lparr>defaultRequest = 0, equivalentTo = (\<lambda>a b. a = b), intersectionOf = max\<rparr>"

text \<open>The invariant of the specification: the cached maximal is the fold of the merge.\<close>

definition mux_inv :: "'r request_ops \<Rightarrow> 'r RequestMultiplexer \<Rightarrow> bool" where
  "mux_inv ops m \<longleftrightarrow>
     getCurrentMaximalRequest m = foldl (intersectionOf ops) (defaultRequest ops) (getRequests m)"

section \<open>Wifi request manager (core/wifi_request_manager.cc)\<close>

text \<open>
  The manager keeps the list of nanoapps with a scan-monitor request (a
  \<^verbatim>\<open>DynamicVector<uint32_t>\<close> of instance ids) and the queue of pending state transitions
  (an \<^verbatim>\<open>ArrayQueue\<close> of fixed capacity). Both containers are declared in headers that are not
  among the sources (chre/util/dynamic_vector.h, chre/util/array_queue.h); their operations
  are modelled on lists as the manager uses them. \<^verbatim>\<open>find\<close> returns the index of the first
  match, or the size when there is none: the manager erases at the index found, so a match
  has an index below the size. \<^verbatim>\<open>erase\<close> removes the element at an index and leaves the
  vector as it is when the index is past the end. \<^verbatim>\<open>push\<close> on the queue fails when the
  queue is full.
\<close>

type_synonym instance_id = "32 word"

primrec dvFind :: "'a list \<Rightarrow> 'a \<Rightarrow> nat" where
  "dvFind [] x = 0"
| "dvFind (y # ys) x = (if y = x then 0 else Suc (dvFind ys x))"

definition dvErase :: "nat \<Rightarrow> 'a list \<Rightarrow> 'a list" where
  "dvErase index xs = take index xs @ drop (Suc index) xs"

text \<open>The error codes of the CHRE API (chre_api/chre/common.h) that the manager uses.\<close>

definition CHRE_ERROR_NONE :: "8 word" where
  "CHRE_ERROR_NONE = 0"

definition CHRE_ERROR :: "8 word" where
  "CHRE_ERROR = 1"

record ScanMonitorStateTransition =
  nanoappInstanceId :: instance_id
  cookie :: nat
  enable :: bool

text \<open>
  What the manager does to the outside, in order: calls of the platform driver, async-result
  events posted to a nanoapp (target instance id, success, error code, cookie), and log
  lines (assertion logs included).
\<close>

datatype wifi_call =
    PlatformConfigureScanMonitor bool
  | PostAsyncResult instance_id bool "8 word" nat
  | WifiLog string

text \<open>
  What the outside answers: the driver's synchronous result for a requested state, whether
  the vector can grow, whether memory for the event can be allocated, whether the event loop
  takes the event; and the capacity of the transition queue
  (\<^verbatim>\<open>kMaxScanMonitorStateTransitions\<close>, declared in the missing header).
\<close>

record wifi_env =
  platformConfigureScanMonitor :: "bool \<Rightarrow> bool"
  pushBackOk :: bool
  memoryAllocOk :: bool
  postEventOk :: bool
  kMaxScanMonitorStateTransitions :: nat

record WifiRequestManager =
  mScanMonitorNanoapps :: "instance_id list"
  mScanMonitorStateTransitions :: "ScanMonitorStateTransition list"
  wifiCalls :: "wifi_call list"

datatype wifi_error = FatalError

definition newWifiRequestManager :: WifiRequestManager where
  "newWifiRequestManager =
     \<lparr>mScanMonitorNanoapps = [], mScanMonitorStateTransitions = [], wifiCalls = []\<rparr>"

definition wifiDo :: "wifi_call \<Rightarrow> WifiRequestManager \<Rightarrow> WifiRequestManager" where
  "wifiDo c m = m\<lparr>wifiCalls := wifiCalls m @ [c]\<rparr>"

definition scanMonitorIsEnabled :: "WifiRequestManager \<Rightarrow> bool" where
  "scanMonitorIsEnabled m = (mScanMonitorNanoapps m \<noteq> [])"

text \<open>
  \<^verbatim>\<open>nanoappHasScanMonitorRequest(instanceId, &nanoappIndex)\<close>: the result, and the index
  written through the pointer (\<open>None\<close> when nothing is written). The source compares the
  index found with the size using \<^verbatim>\<open>==\<close>.
\<close>

definition nanoappHasScanMonitorRequest ::
  "WifiRequestManager \<Rightarrow> instance_id \<Rightarrow> bool \<times> nat option" where
  "nanoappHasScanMonitorRequest m instanceId =
     (let index = dvFind (mScanMonitorNanoapps m) instanceId;
          hasScanMonitorRequest = (index = length (mScanMonitorNanoapps m))
      in (hasScanMonitorRequest, if hasScanMonitorRequest then Some index else None))"

definition scanMonitorIsInRequestedState :: "WifiRequestManager \<Rightarrow> bool \<Rightarrow> bool \<Rightarrow> bool" where
  "scanMonitorIsInRequestedState m requestedState nanoappHasRequest =
     (requestedState = scanMonitorIsEnabled m
      \<or> (\<not> requestedState
          \<and> (\<not> nanoappHasRequest \<or> length (mScanMonitorNanoapps m) > 1)))"

definition scanMonitorStateTransitionIsRequired ::
  "WifiRequestManager \<Rightarrow> bool \<Rightarrow> bool \<Rightarrow> bool" where
  "scanMonitorStateTransitionIsRequired m requestedState nanoappHasRequest =
     ((requestedState \<and> mScanMonitorNanoapps m = [])
      \<or> (\<not> requestedState \<and> nanoappHasRequest
          \<and> length (mScanMonitorNanoapps m) = 1))"

definition addScanMonitorRequestToQueue ::
  "wifi_env \<Rightarrow> WifiRequestManager \<Rightarrow> instance_id \<Rightarrow> bool \<Rightarrow> nat
     \<Rightarrow> bool \<times> WifiRequestManager" where
  "addScanMonitorRequestToQueue env m instanceId enable' cookie' =
     (let scanMonitorStateTransition =
            \<lparr>nanoappInstanceId = instanceId, cookie = cookie', enable = enable'\<rparr>
      in if length (mScanMonitorStateTransitions m) < kMaxScanMonitorStateTransitions env
         then (True, m\<lparr>mScanMonitorStateTransitions :=
                          mScanMonitorStateTransitions m @ [scanMonitorStateTransition]\<rparr>)
         else (False, wifiDo (WifiLog ''Too many scan monitor state transitions'') m))"

definition updateNanoappScanMonitoringList ::
  "wifi_env \<Rightarrow> WifiRequestManager \<Rightarrow> bool \<Rightarrow> instance_id \<Rightarrow> bool \<times> WifiRequestManager" where
  "updateNanoappScanMonitoringList env m enable' instanceId =
     (let (hasExistingRequest, nanoappIndex) = nanoappHasScanMonitorRequest m instanceId
      in if enable' then
           (if \<not> hasExistingRequest then
              (if pushBackOk env
               then (True, m\<lparr>mScanMonitorNanoapps := mScanMonitorNanoapps m @ [instanceId]\<rparr>)
               else (False, wifiDo (WifiLog
                       ''Failed to add nanoapp to the list of scan monitoring nanoapps'') m))
            else (True, m))
         else
           (if \<not> hasExistingRequest then
              (False, wifiDo (WifiLog
                 ''Received a scan monitor state change for a non-existent nanoapp'') m)
            else
              (case nanoappIndex of
                 Some index \<Rightarrow>
                   (True, m\<lparr>mScanMonitorNanoapps := dvErase index (mScanMonitorNanoapps m)\<rparr>)
               | None \<Rightarrow> (True, m))))"

text \<open>
  \<^verbatim>\<open>postScanMonitorAsyncResultEvent\<close>: the list is updated only for a success
  (\<^verbatim>\<open>!success || updateNanoappScanMonitoringList(...)\<close>), and the event is posted only when
  that did not fail.
\<close>

definition postScanMonitorAsyncResultEvent ::
  "wifi_env \<Rightarrow> WifiRequestManager \<Rightarrow> instance_id \<Rightarrow> bool \<Rightarrow> bool \<Rightarrow> 8 word \<Rightarrow> nat
     \<Rightarrow> bool \<times> WifiRequestManager" where
  "postScanMonitorAsyncResultEvent env m instanceId success enable' errorCode cookie' =
     (let (proceed, m1) =
            (if \<not> success then (True, m)
             else updateNanoappScanMonitoringList env m enable' instanceId)
      in if proceed then
           (if \<not> memoryAllocOk env then
              (False, wifiDo (WifiLog
                 ''Failed to allocate wifi scan monitor async result event'') m1)
            else if postEventOk env then
              (True, wifiDo (PostAsyncResult instanceId success errorCode cookie') m1)
            else (False, m1))
         else (False, m1))"

definition postScanMonitorAsyncResultEventFatal ::
  "wifi_env \<Rightarrow> WifiRequestManager \<Rightarrow> instance_id \<Rightarrow> bool \<Rightarrow> bool \<Rightarrow> 8 word \<Rightarrow> nat
     \<Rightarrow> wifi_error + WifiRequestManager" where
  "postScanMonitorAsyncResultEventFatal env m instanceId success enable' errorCode cookie' =
     (let (eventPosted, m1) =
            postScanMonitorAsyncResultEvent env m instanceId success enable' errorCode cookie'
      in if \<not> eventPosted then Inl FatalError else Inr m1)"

text \<open>
  \<^verbatim>\<open>configureScanMonitor(nanoapp, enable, cookie)\<close>, for a nanoapp that is not null, given by
  its instance id. The source passes \<^verbatim>\<open>instanceId\<close>, a \<^verbatim>\<open>uint32_t\<close>, where the two
  predicates take \<^verbatim>\<open>bool nanoappHasRequest\<close>: the conversion gives \<open>instanceId \<noteq> 0\<close>.
\<close>

definition configureScanMonitor ::
  "wifi_env \<Rightarrow> WifiRequestManager \<Rightarrow> instance_id \<Rightarrow> bool \<Rightarrow> nat
     \<Rightarrow> bool \<times> WifiRequestManager" where
  "configureScanMonitor env m instanceId enable' cookie' =
     (if mScanMonitorStateTransitions m \<noteq> [] then
        addScanMonitorRequestToQueue env m instanceId enable' cookie'
      else if scanMonitorIsInRequestedState m enable' (instanceId \<noteq> 0) then
        postScanMonitorAsyncResultEvent env m instanceId True enable' CHRE_ERROR_NONE cookie'
      else if scanMonitorStateTransitionIsRequired m enable' (instanceId \<noteq> 0) then
        (let (queued, m1) = addScanMonitorRequestToQueue env m instanceId enable' cookie'
         in if queued then
              (let m2 = wifiDo (PlatformConfigureScanMonitor enable') m1
               in if platformConfigureScanMonitor env enable' then (True, m2)
                  else (False,
                        wifiDo (WifiLog ''Failed to enable the scan monitor for nanoapp instance'')
                          (m2\<lparr>mScanMonitorStateTransitions :=
                                  butlast (mScanMonitorStateTransitions m2)\<rparr>)))
            else (False, m1))
      else (False, wifiDo (WifiLog ''Invalid scan monitor configuration'') m))"

text \<open>
  The second loop of \<^verbatim>\<open>handleScanMonitorStateChangeSync\<close>, with the local \<^verbatim>\<open>success\<close> and
  the parameter \<^verbatim>\<open>errorCode\<close> as arguments. Every iteration either leaves the loop or pops
  the head of the queue.
\<close>

lemma postScanMonitorAsyncResultEventFatal_queue:
  "postScanMonitorAsyncResultEventFatal env m i s e c k = Inr m' \<Longrightarrow>
   mScanMonitorStateTransitions m' = mScanMonitorStateTransitions m"
  by (auto simp: postScanMonitorAsyncResultEventFatal_def postScanMonitorAsyncResultEvent_def
        updateNanoappScanMonitoringList_def wifiDo_def Let_def
      split: if_splits prod.splits option.splits)

function handlePendingTransitions ::
  "wifi_env \<Rightarrow> bool \<Rightarrow> 8 word \<Rightarrow> WifiRequestManager \<Rightarrow> wifi_error + WifiRequestManager" where
  "handlePendingTransitions env success errorCode m =
     (case mScanMonitorStateTransitions m of
        [] \<Rightarrow> Inr m
      | stateTransition # rest \<Rightarrow>
          (let hasScanMonitorRequest =
                 fst (nanoappHasScanMonitorRequest m (nanoappInstanceId stateTransition))
           in if scanMonitorIsInRequestedState m (enable stateTransition) hasScanMonitorRequest
              then
                (case postScanMonitorAsyncResultEventFatal env m
                        (nanoappInstanceId stateTransition) success (enable stateTransition)
                        errorCode (cookie stateTransition) of
                   Inl e \<Rightarrow> Inl e
                 | Inr m1 \<Rightarrow>
                     handlePendingTransitions env success errorCode
                       (m1\<lparr>mScanMonitorStateTransitions :=
                              tl (mScanMonitorStateTransitions m1)\<rparr>))
              else if scanMonitorStateTransitionIsRequired m (enable stateTransition)
                        hasScanMonitorRequest
              then
                (let m1 = wifiDo (PlatformConfigureScanMonitor (enable stateTransition)) m
                 in if platformConfigureScanMonitor env (enable stateTransition) then Inr m1
                    else
                      (case postScanMonitorAsyncResultEventFatal env m1
                              (nanoappInstanceId stateTransition) False (enable stateTransition)
                              CHRE_ERROR (cookie stateTransition) of
                         Inl e \<Rightarrow> Inl e
                       | Inr m2 \<Rightarrow>
                           handlePendingTransitions env success errorCode
                             (m2\<lparr>mScanMonitorStateTransitions :=
                                    tl (mScanMonitorStateTransitions m2)\<rparr>)))
              else Inr (wifiDo (WifiLog ''Invalid scan monitor state'') m)))"
  by pat_completeness auto
termination
proof (relation "measure (\<lambda>(env, success, errorCode, m). length (mScanMonitorStateTransitions m))")
  show "wf (measure (\<lambda>(env, success, errorCode, m). length (mScanMonitorStateTransitions m)))"
    by simp
next
  fix env :: wifi_env and success :: bool and errorCode :: "8 word"
    and m m1 :: WifiRequestManager and t :: ScanMonitorStateTransition
    and rest :: "ScanMonitorStateTransition list" and h :: bool
  assume "mScanMonitorStateTransitions m = t # rest"
    and "postScanMonitorAsyncResultEventFatal env m (nanoappInstanceId t) success (enable t)
           errorCode (cookie t) = Inr m1"
  then show "((env, success, errorCode,
               m1\<lparr>mScanMonitorStateTransitions := tl (mScanMonitorStateTransitions m1)\<rparr>),
              env, success, errorCode, m)
             \<in> measure (\<lambda>(env, success, errorCode, m). length (mScanMonitorStateTransitions m))"
    by (simp add: postScanMonitorAsyncResultEventFatal_queue)
next
  fix env :: wifi_env and success :: bool and errorCode :: "8 word"
    and m m1 m2 :: WifiRequestManager and t :: ScanMonitorStateTransition
    and rest :: "ScanMonitorStateTransition list" and h :: bool
  assume "mScanMonitorStateTransitions m = t # rest"
    and "m1 = wifiDo (PlatformConfigureScanMonitor (enable t)) m"
    and "postScanMonitorAsyncResultEventFatal env m1 (nanoappInstanceId t) False (enable t)
           CHRE_ERROR (cookie t) = Inr m2"
  then show "((env, success, errorCode,
               m2\<lparr>mScanMonitorStateTransitions := tl (mScanMonitorStateTransitions m2)\<rparr>),
              env, success, errorCode, m)
             \<in> measure (\<lambda>(env, success, errorCode, m). length (mScanMonitorStateTransitions m))"
    by (simp add: postScanMonitorAsyncResultEventFatal_queue wifiDo_def)
qed

declare handlePendingTransitions.simps [simp del]

text \<open>
  \<^verbatim>\<open>handleScanMonitorStateChangeSync(enabled, errorCode)\<close>: the head of the queue is answered
  and popped, then the loop above runs. \<^verbatim>\<open>FATAL_ERROR\<close> ends the run with an error.
\<close>

definition handleScanMonitorStateChangeSync ::
  "wifi_env \<Rightarrow> WifiRequestManager \<Rightarrow> bool \<Rightarrow> 8 word \<Rightarrow> wifi_error + WifiRequestManager" where
  "handleScanMonitorStateChangeSync env m enabled errorCode =
     (let success = (errorCode = CHRE_ERROR_NONE)
      in case mScanMonitorStateTransitions m of
           [] \<Rightarrow>
             handlePendingTransitions env success errorCode
               (wifiDo (WifiLog ''handleScanMonitorStateChange called with no transitions'') m)
         | stateTransition # rest \<Rightarrow>
             (let success' = (success \<and> enable stateTransition = enabled)
              in case postScanMonitorAsyncResultEventFatal env m
                        (nanoappInstanceId stateTransition) success' (enable stateTransition)
                        errorCode (cookie stateTransition) of
                   Inl e \<Rightarrow> Inl e
                 | Inr m1 \<Rightarrow>
                     handlePendingTransitions env success' errorCode
                       (m1\<lparr>mScanMonitorStateTransitions :=
                              tl (mScanMonitorStateTransitions m1)\<rparr>)))"

text \<open>
  What the specification means by a nanoapp having an active scan-monitor request: its
  instance id is in the list of monitoring nanoapps.
\<close>

definition hasActiveScanMonitorRequest :: "WifiRequestManager \<Rightarrow> instance_id \<Rightarrow> bool" where
  "hasActiveScanMonitorRequest m instanceId = (instanceId \<in> set (mScanMonitorNanoapps m))"

text \<open>An environment in which every platform call succeeds.\<close>

definition wifiEnvOk :: wifi_env where
  "wifiEnvOk = \<lparr>platformConfigureScanMonitor = (\<lambda>e. True), pushBackOk = True,
     memoryAllocOk = True, postEventOk = True, kMaxScanMonitorStateTransitions = 8\<rparr>"



section \<open>Events (core/include/chre/core/event.h)\<close>

text \<open>
  An \<^verbatim>\<open>Event\<close> lives in a block of the event loop's memory pool and is handed around by
  pointer: the inbound queue and the nanoapps' queues hold pointers to the same object, whose
  reference count they share. A pointer is the number of the block. The payload pointer and
  the free callback (a function pointer, \<open>None\<close> for \<^verbatim>\<open>nullptr\<close>) are opaque numbers.
  \<^verbatim>\<open>mRefCount\<close> is a \<^verbatim>\<open>size_t\<close>, taken as 32 bits wide as on the SLPI target. The
  assertions (\<^verbatim>\<open>ASSERT\<close>, \<^verbatim>\<open>CHRE_ASSERT\<close>) are compiled out of a release build: the model
  follows the code that remains.
\<close>

type_synonym event_ptr = nat

definition kSystemInstanceId :: instance_id where
  "kSystemInstanceId = 0"

definition kBroadcastInstanceId :: instance_id where
  "kBroadcastInstanceId = 0xFFFFFFFF"

record Event =
  eventType :: "16 word"
  eventData :: nat
  freeCallback :: "nat option"
  senderInstanceId :: instance_id
  targetInstanceId :: instance_id
  mRefCount :: "32 word"

definition newEvent ::
  "16 word \<Rightarrow> nat \<Rightarrow> nat option \<Rightarrow> instance_id \<Rightarrow> instance_id \<Rightarrow> Event" where
  "newEvent type data callback sender target =
     \<lparr>eventType = type, eventData = data, freeCallback = callback,
      senderInstanceId = sender, targetInstanceId = target, mRefCount = 0\<rparr>"

definition incrementRefCount :: "Event \<Rightarrow> Event" where
  "incrementRefCount e = e\<lparr>mRefCount := mRefCount e + 1\<rparr>"

definition decrementRefCount :: "Event \<Rightarrow> Event" where
  "decrementRefCount e = e\<lparr>mRefCount := mRefCount e - 1\<rparr>"

definition isUnreferenced :: "Event \<Rightarrow> bool" where
  "isUnreferenced e = (mRefCount e = 0)"

section \<open>Nanoapps and the event loop (core/event_loop.cc)\<close>

text \<open>
  Modelled from the spec: the class \<^verbatim>\<open>Nanoapp\<close> (chre/core/nanoapp.h) is not among the
  sources. The specification gives the record: the app id (64 bits), the instance id (32
  bits, assigned at start), the system flag, a queue of event pointers and the set of
  subscribed broadcast event types. The entry points \<open>start\<close>, \<open>handle_event\<close> and
  \<open>end\<close> are code of the nanoapp, outside the runtime: a call of one is recorded in the
  event loop's list of calls, and what \<open>start\<close> returns is given by the environment.
  What the nanoapp's code does during such a call, or during a free callback, is outside the
  model.
\<close>

record Nanoapp =
  mAppId :: "64 word"
  mInstanceId :: instance_id
  mIsSystemNanoapp :: bool
  mRegisteredEvents :: "16 word list"
  mEventQueue :: "event_ptr list"

text \<open>
  Modelled from the spec: \<^verbatim>\<open>Nanoapp::isRegisteredForBroadcastEvent\<close> and
  \<^verbatim>\<open>Nanoapp::hasPendingEvent\<close> are not among the sources; a nanoapp is registered for the
  event types in its set of subscriptions, and has a pending event when its queue is not
  empty.
\<close>

definition isRegisteredForBroadcastEvent :: "Nanoapp \<Rightarrow> 16 word \<Rightarrow> bool" where
  "isRegisteredForBroadcastEvent app type = (type \<in> set (mRegisteredEvents app))"

definition hasPendingEvent :: "Nanoapp \<Rightarrow> bool" where
  "hasPendingEvent app = (mEventQueue app \<noteq> [])"

text \<open>
  The calls that leave the event loop, in order. A free callback is recorded with the event's
  type and payload and with the value of \<^verbatim>\<open>mCurrentApp\<close> during the call; a pointer to a
  nanoapp is the nanoapp's instance id.
\<close>

datatype loop_call =
    NanoappStart instance_id
  | NanoappHandleEvent instance_id instance_id "16 word" nat
  | NanoappEnd instance_id
  | FreeCallback nat "16 word" nat "instance_id option"
  | LoopLog string

text \<open>
  The environment: the sizes of the event pool and of the inbound queue
  (\<^verbatim>\<open>kMaxEventCount\<close> and \<^verbatim>\<open>kMaxUnscheduledEventCount\<close>, declared in chre/core/event_loop.h,
  which is not among the sources), whether the vector of nanoapps can take one more element,
  and what the \<open>start\<close> entry point of the nanoapp with a given app id returns.
\<close>

record loop_env =
  kMaxEventCount :: nat
  kMaxUnscheduledEventCount :: nat
  prepareForPushOk :: bool
  nanoappStart :: "64 word \<Rightarrow> bool"

text \<open>
  The event loop. The pool is its blocks and, for each block, whether it is allocated.
  \<^verbatim>\<open>mLastInstanceId\<close> belongs to the event loop manager, which owns the one event loop.
\<close>

record EventLoop =
  mNanoapps :: "Nanoapp list"
  mEvents :: "event_ptr list"
  mEventBlocks :: "event_ptr \<Rightarrow> Event"
  mEventAllocated :: "event_ptr \<Rightarrow> bool"
  mRunning :: bool
  mCurrentApp :: "instance_id option"
  mStoppingNanoapp :: "instance_id option"
  mLastInstanceId :: instance_id
  calls :: "loop_call list"

definition loopCall :: "loop_call \<Rightarrow> EventLoop \<Rightarrow> EventLoop" where
  "loopCall c s = s\<lparr>calls := calls s @ [c]\<rparr>"

definition eventAt :: "EventLoop \<Rightarrow> event_ptr \<Rightarrow> Event" where
  "eventAt s event = mEventBlocks s event"

text \<open>\<^verbatim>\<open>findNanoappInstanceIdByAppId\<close>: the instance id written through the pointer, if found.\<close>

definition findNanoappInstanceIdByAppId :: "EventLoop \<Rightarrow> 64 word \<Rightarrow> instance_id option" where
  "findNanoappInstanceIdByAppId s appId =
     map_option mInstanceId (find (\<lambda>app. mAppId app = appId) (mNanoapps s))"

definition lookupAppByInstanceId :: "EventLoop \<Rightarrow> instance_id \<Rightarrow> instance_id option" where
  "lookupAppByInstanceId s instanceId =
     (if instanceId \<noteq> kSystemInstanceId
      then map_option mInstanceId (find (\<lambda>app. mInstanceId app = instanceId) (mNanoapps s))
      else None)"

text \<open>
  \<^verbatim>\<open>freeEvent\<close>: the free callback, if there is one, runs with \<^verbatim>\<open>mCurrentApp\<close> set to the
  sender looked up by instance id; then the block goes back to the pool.
\<close>

definition freeEvent :: "EventLoop \<Rightarrow> event_ptr \<Rightarrow> EventLoop" where
  "freeEvent s event =
     (let e = eventAt s event;
          s3 = (case freeCallback e of
                  None \<Rightarrow> s
                | Some callback \<Rightarrow>
                    (let s1 = s\<lparr>mCurrentApp := lookupAppByInstanceId s (senderInstanceId e)\<rparr>;
                         s2 = loopCall (FreeCallback callback (eventType e) (eventData e)
                                          (mCurrentApp s1)) s1
                     in s2\<lparr>mCurrentApp := None\<rparr>))
      in s3\<lparr>mEventAllocated := (mEventAllocated s3)(event := False)\<rparr>)"

text \<open>
  Modelled from the spec: the memory pool (\<^verbatim>\<open>mEventPool\<close>) is declared in headers that are
  not among the sources; the specification calls it a bounded pool allocator whose exhaustion
  makes the post fail. \<^verbatim>\<open>allocate\<close> gives a free block among the \<^verbatim>\<open>kMaxEventCount\<close>
  blocks, or \<^verbatim>\<open>nullptr\<close> when all are taken.
\<close>

definition poolAllocate :: "loop_env \<Rightarrow> EventLoop \<Rightarrow> event_ptr option" where
  "poolAllocate env s = find (\<lambda>a. \<not> mEventAllocated s a) [0..<kMaxEventCount env]"

text \<open>
  \<^verbatim>\<open>postEvent\<close>: allocates the event, then pushes it on the inbound queue, and returns the
  result of \<^verbatim>\<open>push\<close>. The queue's class is not among the sources; the specification says
  that the inbound queue has a bounded capacity and that overflow returns failure: \<^verbatim>\<open>push\<close>
  fails when the queue holds \<^verbatim>\<open>kMaxUnscheduledEventCount\<close> events. An event that could not
  be pushed stays allocated.
\<close>

definition postEvent ::
  "loop_env \<Rightarrow> EventLoop \<Rightarrow> 16 word \<Rightarrow> nat \<Rightarrow> nat option \<Rightarrow> instance_id \<Rightarrow> instance_id
     \<Rightarrow> bool \<times> EventLoop" where
  "postEvent env s type data callback sender target =
     (if mRunning s then
        (case poolAllocate env s of
           Some event \<Rightarrow>
             (let s1 = s\<lparr>mEventBlocks :=
                            (mEventBlocks s)(event := newEvent type data callback sender target),
                          mEventAllocated := (mEventAllocated s)(event := True)\<rparr>
              in if length (mEvents s1) < kMaxUnscheduledEventCount env
                 then (True, s1\<lparr>mEvents := mEvents s1 @ [event]\<rparr>)
                 else (False, s1))
         | None \<Rightarrow> (False, loopCall (LoopLog ''Failed to allocate event'') s))
      else (False, s))"

text \<open>
  Modelled from the spec: \<^verbatim>\<open>getNextInstanceId\<close> of the event loop manager is not among the
  sources; the specification asks for a fresh, monotonically increasing instance id.
\<close>

definition getNextInstanceId :: "EventLoop \<Rightarrow> instance_id \<times> EventLoop" where
  "getNextInstanceId s = (mLastInstanceId s + 1, s\<lparr>mLastInstanceId := mLastInstanceId s + 1\<rparr>)"

text \<open>
  \<^verbatim>\<open>startNanoapp\<close>; the argument is \<open>None\<close> for a null \<^verbatim>\<open>UniquePtr\<close>. The manager's search
  for the app id is the search of its one event loop.
\<close>

definition startNanoapp :: "loop_env \<Rightarrow> EventLoop \<Rightarrow> Nanoapp option \<Rightarrow> bool \<times> EventLoop" where
  "startNanoapp env s nanoapp =
     (case nanoapp of
        None \<Rightarrow> (False, s)
      | Some app \<Rightarrow>
          (case findNanoappInstanceIdByAppId s (mAppId app) of
             Some existingInstanceId \<Rightarrow> (False, loopCall (LoopLog ''App already exists'') s)
           | None \<Rightarrow>
               if \<not> prepareForPushOk env
               then (False, loopCall (LoopLog ''Failed to allocate space for new nanoapp'') s)
               else
                 (let (instanceId, s1) = getNextInstanceId s;
                      newNanoapp = app\<lparr>mInstanceId := instanceId\<rparr>;
                      s2 = s1\<lparr>mNanoapps := mNanoapps s1 @ [newNanoapp]\<rparr>;
                      s3 = s2\<lparr>mCurrentApp := Some (mInstanceId newNanoapp)\<rparr>;
                      success = nanoappStart env (mAppId newNanoapp);
                      s4 = loopCall (NanoappStart (mInstanceId newNanoapp)) s3;
                      s5 = s4\<lparr>mCurrentApp := None\<rparr>
                  in if \<not> success
                     then (False,
                           (loopCall (LoopLog ''Nanoapp failed to start'') s5)
                             \<lparr>mNanoapps := butlast (mNanoapps s5)\<rparr>)
                     else (True, s5))))"

text \<open>
  Modelled from the spec: \<^verbatim>\<open>Nanoapp::postEvent\<close> is not among the sources; the specification
  says that the event is appended to the nanoapp's queue and its reference count incremented.
  The nanoapp is given by its index in \<^verbatim>\<open>mNanoapps\<close>.
\<close>

definition nanoappPostEvent :: "EventLoop \<Rightarrow> nat \<Rightarrow> event_ptr \<Rightarrow> EventLoop" where
  "nanoappPostEvent s i event =
     (let app = mNanoapps s ! i
      in s\<lparr>mNanoapps := (mNanoapps s)[i := app\<lparr>mEventQueue := mEventQueue app @ [event]\<rparr>],
           mEventBlocks := (mEventBlocks s)(event := incrementRefCount (mEventBlocks s event))\<rparr>)"

text \<open>The condition under which \<^verbatim>\<open>distributeEvent\<close> posts an event to a nanoapp.\<close>

definition eventIsFor :: "Event \<Rightarrow> Nanoapp \<Rightarrow> bool" where
  "eventIsFor e app =
     ((targetInstanceId e = kBroadcastInstanceId
         \<and> isRegisteredForBroadcastEvent app (eventType e))
      \<or> targetInstanceId e = mInstanceId app)"

text \<open>The range-for loop of \<^verbatim>\<open>distributeEvent\<close> over the indices of \<^verbatim>\<open>mNanoapps\<close>.\<close>

fun distributeTo :: "nat list \<Rightarrow> event_ptr \<Rightarrow> EventLoop \<Rightarrow> EventLoop" where
  "distributeTo [] event s = s"
| "distributeTo (i # is) event s =
     (if eventIsFor (eventAt s event) (mNanoapps s ! i)
      then distributeTo is event (nanoappPostEvent s i event)
      else distributeTo is event s)"

definition distributeEvent :: "EventLoop \<Rightarrow> event_ptr \<Rightarrow> EventLoop" where
  "distributeEvent s event =
     (let s1 = distributeTo [0..<length (mNanoapps s)] event s
      in if isUnreferenced (eventAt s1 event) then
           (let s2 = (if senderInstanceId (eventAt s1 event) \<noteq> kSystemInstanceId
                      then loopCall (LoopLog ''Dropping event'') s1 else s1)
            in freeEvent s2 event)
         else s1)"

text \<open>
  Modelled from the spec: \<^verbatim>\<open>Nanoapp::processNextEvent\<close> is not among the sources. The
  nanoapp takes the event at the head of its queue, its \<open>handle_event\<close> entry point is
  called with the sender, the type and the payload, and the nanoapp's reference to the event
  is released. The result is the event taken; on an empty queue nothing is done.
\<close>

definition processNextEvent :: "EventLoop \<Rightarrow> nat \<Rightarrow> event_ptr option \<times> EventLoop" where
  "processNextEvent s i =
     (let app = mNanoapps s ! i
      in case mEventQueue app of
           [] \<Rightarrow> (None, s)
         | event # rest \<Rightarrow>
             (let e = eventAt s event;
                  s1 = s\<lparr>mNanoapps := (mNanoapps s)[i := app\<lparr>mEventQueue := rest\<rparr>]\<rparr>;
                  s2 = loopCall (NanoappHandleEvent (mInstanceId app) (senderInstanceId e)
                                   (eventType e) (eventData e)) s1
              in (Some event,
                  s2\<lparr>mEventBlocks := (mEventBlocks s2)(event := decrementRefCount e)\<rparr>)))"

definition deliverNextEvent :: "EventLoop \<Rightarrow> nat \<Rightarrow> bool \<times> EventLoop" where
  "deliverNextEvent s i =
     (let s1 = s\<lparr>mCurrentApp := Some (mInstanceId (mNanoapps s ! i))\<rparr>;
          (event, s2) = processNextEvent s1 i;
          s3 = s2\<lparr>mCurrentApp := None\<rparr>;
          s4 = (case event of
                  None \<Rightarrow> s3
                | Some ev \<Rightarrow> if isUnreferenced (eventAt s3 ev) then freeEvent s3 ev else s3)
      in (hasPendingEvent (mNanoapps s4 ! i), s4))"

text \<open>
  \<^verbatim>\<open>deliverEvents\<close>: one round over the nanoapps, by index, with the local
  \<^verbatim>\<open>havePendingEvents\<close> as an argument.
\<close>

fun deliverTo :: "nat list \<Rightarrow> bool \<Rightarrow> EventLoop \<Rightarrow> bool \<times> EventLoop" where
  "deliverTo [] havePendingEvents s = (havePendingEvents, s)"
| "deliverTo (i # is) havePendingEvents s =
     (if hasPendingEvent (mNanoapps s ! i)
      then (let (pending, s1) = deliverNextEvent s i
            in deliverTo is (havePendingEvents \<or> pending) s1)
      else deliverTo is havePendingEvents s)"

definition deliverEvents :: "EventLoop \<Rightarrow> bool \<times> EventLoop" where
  "deliverEvents s = deliverTo [0..<length (mNanoapps s)] False s"

section \<open>The loops of the event loop and their termination\<close>

text \<open>
  \<^verbatim>\<open>flushNanoappEventQueues\<close> is \<^verbatim>\<open>while (deliverEvents());\<close>. It ends because a round of
  \<^verbatim>\<open>deliverEvents\<close> takes the head off every queue that is not empty, and nothing is added
  to a nanoapp's queue during the round. The lemmas that follow say what a round does to the
  queues.
\<close>

definition popEvent :: "Nanoapp \<Rightarrow> Nanoapp" where
  "popEvent app = app\<lparr>mEventQueue := tl (mEventQueue app)\<rparr>"

definition pendingCount :: "EventLoop \<Rightarrow> nat" where
  "pendingCount s = sum_list (map (\<lambda>app. length (mEventQueue app)) (mNanoapps s))"

lemma freeEvent_mNanoapps: "mNanoapps (freeEvent s event) = mNanoapps s"
  by (simp add: freeEvent_def loopCall_def Let_def split: option.splits)

lemma freeEvent_mEvents: "mEvents (freeEvent s event) = mEvents s"
  by (simp add: freeEvent_def loopCall_def Let_def split: option.splits)

lemma popEvent_empty: "mEventQueue app = [] \<Longrightarrow> popEvent app = app"
  by (simp add: popEvent_def)

lemma deliverNextEvent_mNanoapps:
  "mNanoapps (snd (deliverNextEvent s i)) = (mNanoapps s)[i := popEvent (mNanoapps s ! i)]"
proof (cases "mEventQueue (mNanoapps s ! i)")
  case Nil
  then have "popEvent (mNanoapps s ! i) = mNanoapps s ! i"
    by (rule popEvent_empty)
  then have "(mNanoapps s)[i := popEvent (mNanoapps s ! i)] = mNanoapps s"
    by simp
  moreover have "mNanoapps (snd (deliverNextEvent s i)) = mNanoapps s"
    using Nil by (simp add: deliverNextEvent_def processNextEvent_def Let_def)
  ultimately show ?thesis by simp
next
  case (Cons event rest)
  then show ?thesis
    by (simp add: deliverNextEvent_def processNextEvent_def loopCall_def Let_def
          freeEvent_mNanoapps popEvent_def)
qed

lemma deliverNextEvent_pending:
  "i < length (mNanoapps s) \<Longrightarrow>
   fst (deliverNextEvent s i) = hasPendingEvent (popEvent (mNanoapps s ! i))"
  by (cases "mEventQueue (mNanoapps s ! i)")
     (simp_all add: deliverNextEvent_def processNextEvent_def loopCall_def Let_def
        freeEvent_mNanoapps popEvent_def hasPendingEvent_def)

lemma deliverTo_mNanoapps:
  "distinct is \<Longrightarrow> \<forall>i\<in>set is. i < length (mNanoapps s) \<Longrightarrow>
   length (mNanoapps (snd (deliverTo is p s))) = length (mNanoapps s)
   \<and> (\<forall>j<length (mNanoapps s).
         mNanoapps (snd (deliverTo is p s)) ! j
           = (if j \<in> set is then popEvent (mNanoapps s ! j) else mNanoapps s ! j))
   \<and> fst (deliverTo is p s)
       = (p \<or> (\<exists>i\<in>set is. hasPendingEvent (popEvent (mNanoapps s ! i))))"
proof (induction "is" arbitrary: p s)
  case Nil
  then show ?case by simp
next
  case (Cons i "is")
  have i: "i < length (mNanoapps s)" "i \<notin> set is" "distinct is"
    using Cons.prems by simp_all
  show ?case
  proof (cases "hasPendingEvent (mNanoapps s ! i)")
    case False
    then have e: "popEvent (mNanoapps s ! i) = mNanoapps s ! i"
      by (simp add: hasPendingEvent_def popEvent_empty)
    have r: "\<forall>k\<in>set is. k < length (mNanoapps s)" using Cons.prems by simp
    from Cons.IH [OF i(3) r, of p] False e show ?thesis
      by auto
  next
    case True
    obtain pending s1 where d: "deliverNextEvent s i = (pending, s1)"
      by (cases "deliverNextEvent s i")
    have a1: "mNanoapps s1 = (mNanoapps s)[i := popEvent (mNanoapps s ! i)]"
      using deliverNextEvent_mNanoapps [of s i] d by simp
    have p1: "pending = hasPendingEvent (popEvent (mNanoapps s ! i))"
      using deliverNextEvent_pending [OF i(1)] d by simp
    have r: "\<forall>k\<in>set is. k < length (mNanoapps s1)" using Cons.prems a1 by simp
    have step: "deliverTo (i # is) p s = deliverTo is (p \<or> pending) s1"
      using True d by simp
    from Cons.IH [OF i(3) r, of "p \<or> pending"]
    have ih: "length (mNanoapps (snd (deliverTo is (p \<or> pending) s1))) = length (mNanoapps s1)"
      "\<forall>j<length (mNanoapps s1).
         mNanoapps (snd (deliverTo is (p \<or> pending) s1)) ! j
           = (if j \<in> set is then popEvent (mNanoapps s1 ! j) else mNanoapps s1 ! j)"
      "fst (deliverTo is (p \<or> pending) s1)
         = ((p \<or> pending) \<or> (\<exists>k\<in>set is. hasPendingEvent (popEvent (mNanoapps s1 ! k))))"
      by blast+
    have n: "mNanoapps s1 ! k = mNanoapps s ! k" if "k \<in> set is" for k
      using that i(2) a1 by (metis nth_list_update_neq)
    have l: "length (mNanoapps (snd (deliverTo (i # is) p s))) = length (mNanoapps s)"
      using ih(1) a1 step by simp
    have q: "mNanoapps (snd (deliverTo (i # is) p s)) ! j
           = (if j \<in> set (i # is) then popEvent (mNanoapps s ! j) else mNanoapps s ! j)"
      if "j < length (mNanoapps s)" for j
    proof -
      have "j < length (mNanoapps s1)" using that a1 by simp
      then have "mNanoapps (snd (deliverTo is (p \<or> pending) s1)) ! j
           = (if j \<in> set is then popEvent (mNanoapps s1 ! j) else mNanoapps s1 ! j)"
        using ih(2) by blast
      then show ?thesis
        using step a1 i(2) that n by (auto simp: nth_list_update)
    qed
    have f: "fst (deliverTo (i # is) p s)
       = (p \<or> (\<exists>k\<in>set (i # is). hasPendingEvent (popEvent (mNanoapps s ! k))))"
      using ih(3) step p1 n by auto
    show ?thesis using l q f by blast
  qed
qed

lemma deliverEvents_mNanoapps:
  "mNanoapps (snd (deliverEvents s)) = map popEvent (mNanoapps s)"
  "fst (deliverEvents s) = (\<exists>app\<in>set (mNanoapps s). hasPendingEvent (popEvent app))"
proof -
  have d: "distinct [0..<length (mNanoapps s)]"
    "\<forall>i\<in>set [0..<length (mNanoapps s)]. i < length (mNanoapps s)"
    by simp_all
  note r = deliverTo_mNanoapps [OF d, of False, folded deliverEvents_def]
  show "mNanoapps (snd (deliverEvents s)) = map popEvent (mNanoapps s)"
    using r by (intro nth_equalityI) simp_all
  have "(\<exists>i\<in>set [0..<length (mNanoapps s)]. hasPendingEvent (popEvent (mNanoapps s ! i)))
      = (\<exists>app\<in>set (mNanoapps s). hasPendingEvent (popEvent app))"
    by (metis atLeast0LessThan in_set_conv_nth lessThan_iff set_upt)
  then show "fst (deliverEvents s) = (\<exists>app\<in>set (mNanoapps s). hasPendingEvent (popEvent app))"
    using r by simp
qed

lemma pendingCount_pop:
  "\<exists>app\<in>set apps. hasPendingEvent (popEvent app) \<Longrightarrow>
   sum_list (map (\<lambda>app. length (mEventQueue app)) (map popEvent apps))
     < sum_list (map (\<lambda>app. length (mEventQueue app)) apps)"
proof (induction apps)
  case Nil
  then show ?case by simp
next
  case (Cons a apps)
  have le: "sum_list (map (\<lambda>app. length (mEventQueue app)) (map popEvent xs))
     \<le> sum_list (map (\<lambda>app. length (mEventQueue app)) xs)" for xs
    by (induction xs) (auto simp: popEvent_def intro: add_mono)
  show ?case
  proof (cases "hasPendingEvent (popEvent a)")
    case True
    then have "length (mEventQueue (popEvent a)) < length (mEventQueue a)"
      by (cases "mEventQueue a") (simp_all add: popEvent_def hasPendingEvent_def)
    then show ?thesis using le [of apps] by simp
  next
    case False
    then have "\<exists>app\<in>set apps. hasPendingEvent (popEvent app)" using Cons.prems by simp
    from Cons.IH [OF this] show ?thesis
      by (simp add: popEvent_def)
  qed
qed

lemma deliverEvents_pendingCount:
  "deliverEvents s = (True, s1) \<Longrightarrow> pendingCount s1 < pendingCount s"
  using deliverEvents_mNanoapps [of s] pendingCount_pop [of "mNanoapps s"]
  by (simp add: pendingCount_def)

function flushNanoappEventQueues :: "EventLoop \<Rightarrow> EventLoop" where
  "flushNanoappEventQueues s =
     (let (havePendingEvents, s1) = deliverEvents s
      in if havePendingEvents then flushNanoappEventQueues s1 else s1)"
  by pat_completeness auto
termination
  by (relation "measure pendingCount") (simp_all add: deliverEvents_pendingCount)

declare flushNanoappEventQueues.simps [simp del]

text \<open>
  \<^verbatim>\<open>flushInboundEventQueue\<close>: \<^verbatim>\<open>while (!mEvents.empty()) distributeEvent(mEvents.pop());\<close>
\<close>

lemma nanoappPostEvent_mEvents: "mEvents (nanoappPostEvent s i event) = mEvents s"
  by (simp add: nanoappPostEvent_def Let_def)

lemma distributeTo_mEvents: "mEvents (distributeTo is event s) = mEvents s"
  by (induction "is" arbitrary: s) (simp_all add: nanoappPostEvent_mEvents)

lemma distributeEvent_mEvents: "mEvents (distributeEvent s event) = mEvents s"
  by (simp add: distributeEvent_def Let_def freeEvent_mEvents distributeTo_mEvents loopCall_def)

function flushInboundEventQueue :: "EventLoop \<Rightarrow> EventLoop" where
  "flushInboundEventQueue s =
     (case mEvents s of
        [] \<Rightarrow> s
      | event # rest \<Rightarrow> flushInboundEventQueue (distributeEvent (s\<lparr>mEvents := rest\<rparr>) event))"
  by pat_completeness auto
termination
  by (relation "measure (\<lambda>s. length (mEvents s))") (simp_all add: distributeEvent_mEvents)

declare flushInboundEventQueue.simps [simp del]

text \<open>
  The two loops at the end of \<^verbatim>\<open>run\<close>:
  \<^verbatim>\<open>while (!mEvents.empty()) freeEvent(mEvents.pop());\<close> and
  \<^verbatim>\<open>while (!mNanoapps.empty()) unloadNanoappAtIndex(mNanoapps.size() - 1);\<close>
\<close>

function freeInboundEvents :: "EventLoop \<Rightarrow> EventLoop" where
  "freeInboundEvents s =
     (case mEvents s of
        [] \<Rightarrow> s
      | event # rest \<Rightarrow> freeInboundEvents (freeEvent (s\<lparr>mEvents := rest\<rparr>) event))"
  by pat_completeness auto
termination
  by (relation "measure (\<lambda>s. length (mEvents s))") (simp_all add: freeEvent_mEvents)

declare freeInboundEvents.simps [simp del]

definition unloadNanoappAtIndex :: "EventLoop \<Rightarrow> nat \<Rightarrow> EventLoop" where
  "unloadNanoappAtIndex s index =
     (let nanoapp = mNanoapps s ! index;
          s1 = s\<lparr>mCurrentApp := Some (mInstanceId nanoapp)\<rparr>;
          s2 = loopCall (NanoappEnd (mInstanceId nanoapp)) s1;
          s3 = s2\<lparr>mCurrentApp := None\<rparr>
      in s3\<lparr>mNanoapps := dvErase index (mNanoapps s3)\<rparr>)"

function unloadAllNanoapps :: "EventLoop \<Rightarrow> EventLoop" where
  "unloadAllNanoapps s =
     (if mNanoapps s \<noteq> []
      then unloadAllNanoapps (unloadNanoappAtIndex s (length (mNanoapps s) - 1))
      else s)"
  by pat_completeness auto
termination
  by (relation "measure (\<lambda>s. length (mNanoapps s))")
     (auto simp: unloadNanoappAtIndex_def loopCall_def dvErase_def Let_def)

declare unloadAllNanoapps.simps [simp del]

text \<open>
  The end of \<^verbatim>\<open>EventLoop::run\<close>, from the exit of the main loop (\<^verbatim>\<open>mRunning\<close> is false) on:
  the nanoapps' queues are flushed, the inbound queue is purged, the nanoapps are unloaded.
\<close>

definition runShutdown :: "EventLoop \<Rightarrow> EventLoop" where
  "runShutdown s = unloadAllNanoapps (freeInboundEvents (flushNanoappEventQueues s))"

text \<open>
  The shutdown drain in the order the specification gives: (a) the inbound events are
  distributed, (b) the nanoapps' queues are flushed, (c) the nanoapps are unloaded.
\<close>

definition specShutdownDrain :: "EventLoop \<Rightarrow> EventLoop" where
  "specShutdownDrain s = unloadAllNanoapps (flushNanoappEventQueues (flushInboundEventQueue s))"

section \<open>Readings of the list of calls\<close>

text \<open>The calls that \<^verbatim>\<open>freeEvent\<close> makes for an event: its free callback, if it has one.\<close>

definition freeEventCalls :: "EventLoop \<Rightarrow> event_ptr \<Rightarrow> loop_call list" where
  "freeEventCalls s event =
     (case freeCallback (eventAt s event) of
        None \<Rightarrow> []
      | Some callback \<Rightarrow>
          [FreeCallback callback (eventType (eventAt s event)) (eventData (eventAt s event))
             (lookupAppByInstanceId s (senderInstanceId (eventAt s event)))])"

text \<open>The kinds of calls: a nanoapp's handler receiving an event, and a free callback.\<close>

fun isHandleEventCall :: "loop_call \<Rightarrow> bool" where
  "isHandleEventCall (NanoappHandleEvent recipient sender type data) = True"
| "isHandleEventCall c = False"

fun isFreeCallbackCall :: "loop_call \<Rightarrow> bool" where
  "isFreeCallbackCall (FreeCallback callback type data current) = True"
| "isFreeCallbackCall c = False"

text \<open>
  A list of calls made while delivering events: \<open>n\<close> calls of handlers, and besides them
  only free callbacks.
\<close>

definition deliveryCalls :: "nat \<Rightarrow> loop_call list \<Rightarrow> bool" where
  "deliveryCalls n cs \<longleftrightarrow>
     length (filter isHandleEventCall cs) = n
     \<and> list_all (\<lambda>c. isHandleEventCall c \<or> isFreeCallbackCall c) cs"

section \<open>The inbound queue and the pool\<close>

text \<open>
  The inbound queue holds the events that \<^verbatim>\<open>postEvent\<close> allocated and pushed and that have not
  been popped yet: every pointer in it is a block of the pool that is allocated, and no
  pointer is in it twice.
\<close>

definition inboundQueueOk :: "loop_env \<Rightarrow> EventLoop \<Rightarrow> bool" where
  "inboundQueueOk env s \<longleftrightarrow>
     distinct (mEvents s)
     \<and> list_all (\<lambda>event. event < kMaxEventCount env \<and> mEventAllocated s event) (mEvents s)"

section \<open>States and environments for concrete runs\<close>

text \<open>A running event loop with no nanoapp and no event; every block of the pool is free.\<close>

definition emptyEventLoop :: EventLoop where
  "emptyEventLoop =
     \<lparr>mNanoapps = [], mEvents = [], mEventBlocks = (\<lambda>a. newEvent 0 0 None 0 0),
      mEventAllocated = (\<lambda>a. False), mRunning = True, mCurrentApp = None,
      mStoppingNanoapp = None, mLastInstanceId = kSystemInstanceId, calls = []\<rparr>"

text \<open>
  An environment with a pool of two events and an inbound queue of one, in which the vector
  of nanoapps can grow and every nanoapp starts, but the one with app id 5.
\<close>

definition smallEnv :: loop_env where
  "smallEnv = \<lparr>kMaxEventCount = 2, kMaxUnscheduledEventCount = 1, prepareForPushOk = True,
     nanoappStart = (\<lambda>appId. appId \<noteq> 5)\<rparr>"

definition mkNanoapp :: "64 word \<Rightarrow> instance_id \<Rightarrow> 16 word list \<Rightarrow> event_ptr list \<Rightarrow> Nanoapp" where
  "mkNanoapp appId instanceId registered queue =
     \<lparr>mAppId = appId, mInstanceId = instanceId, mIsSystemNanoapp = False,
      mRegisteredEvents = registered, mEventQueue = queue\<rparr>"

text \<open>
  A stopped event loop at the exit of the main loop of \<^verbatim>\<open>run\<close>: one nanoapp (instance id 1)
  subscribed to the event type 0x100, with an empty queue, and one broadcast event of that
  type, sent by the system with a free callback, in the inbound queue.
\<close>

definition stoppedLoop :: EventLoop where
  "stoppedLoop =
     \<lparr>mNanoapps = [mkNanoapp 6 1 [0x100] []],
      mEvents = [0],
      mEventBlocks = (\<lambda>a. newEvent 0x100 7 (Some 42) kSystemInstanceId kBroadcastInstanceId),
      mEventAllocated = (\<lambda>a. a = 0), mRunning = False, mCurrentApp = None,
      mStoppingNanoapp = None, mLastInstanceId = 1, calls = []\<rparr>"

chapter \<open>Properties\<close>

section \<open>Properties of the sensor request merge\<close>

lemma generateIntersectionOf_commute:
  "generateIntersectionOf x y = generateIntersectionOf y x"
  by (auto simp: generateIntersectionOf_def mkSensorRequest_def Let_def min.commute)

lemma generateIntersectionOf_idem:
  "generateIntersectionOf x x = x"
  by (cases "mMode x")
     (simp_all add: generateIntersectionOf_def mkSensorRequest_def)

lemma generateIntersectionOf_assoc:
  "generateIntersectionOf (generateIntersectionOf x y) z =
   generateIntersectionOf x (generateIntersectionOf y z)"
  by (cases "mMode x"; cases "mMode y"; cases "mMode z")
     (simp_all add: generateIntersectionOf_def mkSensorRequest_def min.assoc)

text \<open>
  C4, as stated: merging any request with the default-constructed request gives a request
  equivalent to the original. The request (ActiveContinuous, 10 ns, 10 ns) refutes it: the
  default request carries interval 0 and latency 0, and the minimum with 0 is 0.
\<close>

theorem C4_default_not_identity:
  "\<not> isEquivalentTo
       (generateIntersectionOf (mkSensorRequest ActiveContinuous 10 10) defaultSensorRequest)
       (mkSensorRequest ActiveContinuous 10 10)"
  by (simp add: isEquivalentTo_def generateIntersectionOf_def defaultSensorRequest_def
        mkSensorRequest_def)

text \<open>
  C4, amended: merging a request x with the default-constructed request (Off, 0, 0) keeps
  the mode of x and sets interval and latency to 0, so the result is equivalent to x exactly
  when the interval and the latency of x are both 0; the merge itself is commutative,
  associative and idempotent.
\<close>

theorem C4_merge_with_default:
  "generateIntersectionOf x defaultSensorRequest = mkSensorRequest (mMode x) 0 0
   \<and> isEquivalentTo (generateIntersectionOf x defaultSensorRequest) x
       = (mInterval x = 0 \<and> mLatency x = 0)
   \<and> generateIntersectionOf x y = generateIntersectionOf y x
   \<and> generateIntersectionOf (generateIntersectionOf x y) z
       = generateIntersectionOf x (generateIntersectionOf y z)
   \<and> generateIntersectionOf x x = x"
proof -
  have d: "generateIntersectionOf x defaultSensorRequest = mkSensorRequest (mMode x) 0 0"
    by (cases "mMode x")
       (simp_all add: generateIntersectionOf_def defaultSensorRequest_def mkSensorRequest_def)
  have e: "isEquivalentTo (mkSensorRequest (mMode x) 0 0) x
             = (mInterval x = 0 \<and> mLatency x = 0)"
    by (auto simp: isEquivalentTo_def mkSensorRequest_def)
  show ?thesis
    using d e generateIntersectionOf_commute [of x y] generateIntersectionOf_assoc [of x y z]
      generateIntersectionOf_idem [of x]
    by simp
qed

section \<open>Properties of the reconnect loop\<close>

lemma sint_nextDelay:
  assumes "0 < sint d" "sint d \<le> 300000"
  shows "sint (nextDelay d) = min (2 * sint d) 300000"
proof -
  have "sint (d * 2) = signed_take_bit 31 (sint d * 2)"
    by (simp add: sint_word_ariths)
  also have "\<dots> = sint d * 2"
    using assms by (intro signed_take_bit_int_eq_self) auto
  finally have e: "sint (d * 2) = 2 * sint d" by simp
  show ?thesis
    using e by (auto simp: nextDelay_def kMaxDelay_def Let_def)
qed


lemma waits_append: "waits (a @ b) = waits a @ waits b"
  by (induction a rule: waits.induct) simp_all

lemma attempts_append: "attempts (a @ b) = attempts a @ attempts b"
  by (induction a rule: attempts.induct) simp_all

lemma reconnectedCalls_append:
  "reconnectedCalls (a @ b) = reconnectedCalls a + reconnectedCalls b"
  by (simp add: reconnectedCalls_def)

lemma sint_nextDelay_bounds:
  assumes "0 < sint d" "sint d \<le> 300000"
  shows "0 < sint (nextDelay d)" "sint (nextDelay d) \<le> 300000"
  using sint_nextDelay [OF assms] assms by auto

lemma min_scaled:
  fixes x :: int
  assumes "0 < x"
  shows "min (min (2 * x) 300000 * 2 ^ i) 300000 = min (x * 2 ^ Suc i) 300000"
proof (cases "x \<le> 150000")
  case True
  then show ?thesis by (simp add: min_def mult.assoc mult.left_commute)
next
  case False
  have p: "(1::int) \<le> 2 ^ i" by simp
  have a: "(300000::int) * 1 \<le> 300000 * 2 ^ i"
    using p by (intro mult_left_mono) simp_all
  have "x * 1 \<le> x * 2 ^ i"
    using p assms by (intro mult_left_mono) simp_all
  then have "150000 < x * 2 ^ i"
    using False by linarith
  then have b: "300000 < x * 2 ^ Suc i"
    by simp
  have l: "min (2 * x) 300000 = 300000"
    using False by simp
  have m: "min ((300000::int) * 2 ^ i) 300000 = 300000"
    using a unfolding min_def by (simp only: mult_1_right split: if_split) linarith
  have r: "min (x * 2 ^ Suc i) 300000 = 300000"
    using b by (simp only: min_def) simp
  show ?thesis by (simp only: l m r)
qed

lemma loop_waits:
  "reconnect_loop env r d k tr = (res, tr') \<Longrightarrow> 0 < sint d \<Longrightarrow> sint d \<le> 300000 \<Longrightarrow>
   \<exists>ds. waits tr' = waits tr @ ds
      \<and> (\<forall>i<length ds. sint (ds ! i) = min (sint d * 2 ^ i) 300000)"
proof (induction env r d k tr arbitrary: res tr' rule: reconnect_loop.induct)
  case (1 env retryLimit delay k tr)
  show ?case
  proof (cases "retryLimit - 1 > 0")
    case False
    with "1.prems" show ?thesis by (subst (asm) reconnect_loop.simps) simp
  next
    case go: True
    show ?thesis
    proof (cases "shutdownSeen env k")
      case True
      with go "1.prems" have "waits tr' = waits tr @ [delay]"
        by (subst (asm) reconnect_loop.simps) (auto simp: waits_append)
      then show ?thesis using "1.prems" by auto
    next
      case ns: False
      show ?thesis
      proof (cases "connectOk env k")
        case True
        with go ns "1.prems" have "waits tr' = waits tr @ [delay]"
          by (subst (asm) reconnect_loop.simps) (auto simp: waits_append)
        then show ?thesis using "1.prems" by auto
      next
        case False
        with go ns "1.prems" have rec:
          "reconnect_loop env (retryLimit - 1) (nextDelay delay) (Suc k)
             ((tr @ [WaitFor delay]) @ [TryConnect False]) = (res, tr')"
          by (subst (asm) reconnect_loop.simps) simp
        from "1.IH" [OF refl go refl ns False rec] sint_nextDelay_bounds [OF "1.prems"(2,3)]
        obtain ds where ds: "waits tr' = waits ((tr @ [WaitFor delay]) @ [TryConnect False]) @ ds"
          "\<forall>i<length ds. sint (ds ! i) = min (sint (nextDelay delay) * 2 ^ i) 300000"
          by blast
        have w: "waits tr' = waits tr @ (delay # ds)"
          using ds(1) by (simp add: waits_append)
        have "sint ((delay # ds) ! i) = min (sint delay * 2 ^ i) 300000"
          if "i < length (delay # ds)" for i
        proof (cases i)
          case 0
          then show ?thesis using "1.prems" by simp
        next
          case (Suc j)
          then have "j < length ds" using that by simp
          then have "sint (ds ! j) = min (sint (nextDelay delay) * 2 ^ j) 300000"
            using ds(2) by blast
          then show ?thesis
            using Suc sint_nextDelay [OF "1.prems"(2,3)] min_scaled [OF "1.prems"(2), of j]
            by simp
        qed
        then show ?thesis using w by blast
      qed
    qed
  qed
qed


lemma loop_stop:
  "\<not> 0 < r - 1 \<Longrightarrow> reconnect_loop env r d k tr = (False, tr)"
  by (subst reconnect_loop.simps) simp

lemma loop_shutdown:
  "0 < r - 1 \<Longrightarrow> shutdownSeen env k \<Longrightarrow>
   reconnect_loop env r d k tr = (False, tr @ [WaitFor d])"
  by (subst reconnect_loop.simps) simp

lemma loop_success:
  "0 < r - 1 \<Longrightarrow> \<not> shutdownSeen env k \<Longrightarrow> connectOk env k \<Longrightarrow>
   reconnect_loop env r d k tr = (True, tr @ [WaitFor d, TryConnect True, OnSocketReconnected])"
  by (subst reconnect_loop.simps) simp

lemma loop_retry:
  "0 < r - 1 \<Longrightarrow> \<not> shutdownSeen env k \<Longrightarrow> \<not> connectOk env k \<Longrightarrow>
   reconnect_loop env r d k tr =
   reconnect_loop env (r - 1) (nextDelay d) (Suc k) ((tr @ [WaitFor d]) @ [TryConnect False])"
  by (subst reconnect_loop.simps) simp

lemma loop_calls:
  "reconnect_loop env r d k tr = (res, tr') \<Longrightarrow>
   reconnectedCalls tr' = reconnectedCalls tr + (if res then 1 else 0)"
proof (induction env r d k tr arbitrary: res tr' rule: reconnect_loop.induct)
  case (1 env r d k tr)
  consider (stop) "\<not> 0 < r - 1"
    | (shut) "0 < r - 1" "shutdownSeen env k"
    | (succ) "0 < r - 1" "\<not> shutdownSeen env k" "connectOk env k"
    | (retry) "0 < r - 1" "\<not> shutdownSeen env k" "\<not> connectOk env k"
    by blast
  then show ?case
  proof cases
    case stop
    then show ?thesis using "1.prems" by (simp add: loop_stop)
  next
    case shut
    then show ?thesis using "1.prems" by (auto simp: loop_shutdown reconnectedCalls_def)
  next
    case succ
    then show ?thesis using "1.prems" by (auto simp: loop_success reconnectedCalls_def)
  next
    case retry
    then have "reconnect_loop env (r - 1) (nextDelay d) (Suc k)
                 ((tr @ [WaitFor d]) @ [TryConnect False]) = (res, tr')"
      using "1.prems" loop_retry [OF retry, of d tr] by simp
    from "1.IH" [OF refl retry(1) refl retry(2,3) this]
    show ?thesis by (simp add: reconnectedCalls_def)
  qed
qed

lemma loop_lengths:
  "reconnect_loop env r d k tr = (res, tr') \<Longrightarrow>
   length (waits tr') \<le> length (waits tr) + nat (r - 1)
   \<and> length (attempts tr') + length (waits tr) \<le> length (waits tr') + length (attempts tr)"
proof (induction env r d k tr arbitrary: res tr' rule: reconnect_loop.induct)
  case (1 env r d k tr)
  consider (stop) "\<not> 0 < r - 1"
    | (shut) "0 < r - 1" "shutdownSeen env k"
    | (succ) "0 < r - 1" "\<not> shutdownSeen env k" "connectOk env k"
    | (retry) "0 < r - 1" "\<not> shutdownSeen env k" "\<not> connectOk env k"
    by blast
  then show ?case
  proof cases
    case stop
    then show ?thesis using "1.prems" by (simp add: loop_stop)
  next
    case shut
    then show ?thesis using "1.prems" by (auto simp: loop_shutdown waits_append attempts_append)
  next
    case succ
    then show ?thesis using "1.prems" by (auto simp: loop_success waits_append attempts_append)
  next
    case retry
    then have "reconnect_loop env (r - 1) (nextDelay d) (Suc k)
                 ((tr @ [WaitFor d]) @ [TryConnect False]) = (res, tr')"
      using "1.prems" loop_retry [OF retry, of d tr] by simp
    from "1.IH" [OF refl retry(1) refl retry(2,3) this] retry(1)
    show ?thesis by (simp add: waits_append attempts_append) linarith
  qed
qed

lemma loop_attempts:
  "reconnect_loop env r d k tr = (res, tr') \<Longrightarrow>
   \<exists>bs. attempts tr' = attempts tr @ bs
      \<and> bs = map (connectOk env) [k..<k + length bs]
      \<and> res = (True \<in> set bs)
      \<and> (res \<longrightarrow> bs = replicate (length bs - 1) False @ [True])"
proof (induction env r d k tr arbitrary: res tr' rule: reconnect_loop.induct)
  case (1 env r d k tr)
  consider (stop) "\<not> 0 < r - 1"
    | (shut) "0 < r - 1" "shutdownSeen env k"
    | (succ) "0 < r - 1" "\<not> shutdownSeen env k" "connectOk env k"
    | (retry) "0 < r - 1" "\<not> shutdownSeen env k" "\<not> connectOk env k"
    by blast
  then show ?case
  proof cases
    case stop
    then show ?thesis using "1.prems" by (simp add: loop_stop)
  next
    case shut
    then show ?thesis using "1.prems" by (auto simp: loop_shutdown attempts_append)
  next
    case succ
    then have "attempts tr' = attempts tr @ [True]" "res"
      using "1.prems" by (auto simp: loop_success attempts_append)
    then show ?thesis using succ by (intro exI [of _ "[True]"]) simp
  next
    case retry
    then have "reconnect_loop env (r - 1) (nextDelay d) (Suc k)
                 ((tr @ [WaitFor d]) @ [TryConnect False]) = (res, tr')"
      using "1.prems" loop_retry [OF retry, of d tr] by simp
    from "1.IH" [OF refl retry(1) refl retry(2,3) this]
    obtain bs where bs: "attempts tr' = attempts ((tr @ [WaitFor d]) @ [TryConnect False]) @ bs"
      "bs = map (connectOk env) [Suc k..<Suc k + length bs]"
      "res = (True \<in> set bs)"
      "res \<longrightarrow> bs = replicate (length bs - 1) False @ [True]"
      by blast
    have a: "attempts tr' = attempts tr @ (False # bs)"
      using bs(1) by (simp add: attempts_append)
    have "[k..<Suc (k + length bs)] = k # [Suc k..<Suc (k + length bs)]"
      by (rule upt_conv_Cons) simp
    then have "[k..<k + length (False # bs)] = k # [Suc k..<Suc k + length bs]"
      by simp
    then have b: "False # bs = map (connectOk env) [k..<k + length (False # bs)]"
      using bs(2) retry(3) by simp
    have c: "res = (True \<in> set (False # bs))"
      using bs(3) by simp
    have d: "False # bs = replicate (length (False # bs) - 1) False @ [True]" if res
    proof -
      from that bs(4) have e: "bs = replicate (length bs - 1) False @ [True]" by blast
      then have "length bs \<noteq> 0" by auto
      then have "replicate (length bs) False = False # replicate (length bs - 1) False"
        by (cases "length bs") simp_all
      then show ?thesis using e by simp
    qed
    have d': "res \<longrightarrow> False # bs = replicate (length (False # bs) - 1) False @ [True]"
      using d by (rule impI)
    show ?thesis
      by (rule exI [of _ "False # bs"]) (intro conjI; rule a b c d')
  qed
qed

lemma loop_result:
  "reconnect_loop env r d k tr = (res, tr') \<Longrightarrow>
   res = (\<exists>j\<ge>k. int j - int k < r - 1 \<and> connectOk env j
            \<and> (\<forall>i. k \<le> i \<and> i \<le> j \<longrightarrow> \<not> shutdownSeen env i))"
proof (induction env r d k tr arbitrary: res tr' rule: reconnect_loop.induct)
  case (1 env r d k tr)
  let ?R = "\<lambda>k r. \<exists>j\<ge>k. int j - int k < r - 1 \<and> connectOk env j
            \<and> (\<forall>i. k \<le> i \<and> i \<le> j \<longrightarrow> \<not> shutdownSeen env i)"
  consider (stop) "\<not> 0 < r - 1"
    | (shut) "0 < r - 1" "shutdownSeen env k"
    | (succ) "0 < r - 1" "\<not> shutdownSeen env k" "connectOk env k"
    | (retry) "0 < r - 1" "\<not> shutdownSeen env k" "\<not> connectOk env k"
    by blast
  then show ?case
  proof cases
    case stop
    then have "\<not> res" using "1.prems" by (simp add: loop_stop)
    moreover have "\<not> ?R k r" using stop by auto
    ultimately show ?thesis by blast
  next
    case shut
    then have "\<not> res" using "1.prems" by (simp add: loop_shutdown)
    moreover have "\<not> ?R k r" using shut by auto
    ultimately show ?thesis by blast
  next
    case succ
    then have "res" using "1.prems" by (simp add: loop_success)
    moreover have "?R k r" using succ by (intro exI [of _ k]) auto
    ultimately show ?thesis by blast
  next
    case retry
    then have "reconnect_loop env (r - 1) (nextDelay d) (Suc k)
                 ((tr @ [WaitFor d]) @ [TryConnect False]) = (res, tr')"
      using "1.prems" loop_retry [OF retry, of d tr] by simp
    from "1.IH" [OF refl retry(1) refl retry(2,3) this]
    have ih: "res = ?R (Suc k) (r - 1)" .
    have "?R (Suc k) (r - 1) = ?R k r"
    proof
      assume "?R (Suc k) (r - 1)"
      then obtain j where j: "Suc k \<le> j" "int j - int (Suc k) < r - 1 - 1" "connectOk env j"
        "\<forall>i. Suc k \<le> i \<and> i \<le> j \<longrightarrow> \<not> shutdownSeen env i" by blast
      have "\<not> shutdownSeen env i" if "k \<le> i \<and> i \<le> j" for i
        using that j(4) retry(2) by (cases "i = k") auto
      then show "?R k r" using j(1,2,3) by (intro exI [of _ j]) auto
    next
      assume "?R k r"
      then obtain j where j: "k \<le> j" "int j - int k < r - 1" "connectOk env j"
        "\<forall>i. k \<le> i \<and> i \<le> j \<longrightarrow> \<not> shutdownSeen env i" by blast
      have "j \<noteq> k" using j(3) retry(3) by auto
      then have "Suc k \<le> j" using j(1) by simp
      then show "?R (Suc k) (r - 1)" using j by (intro exI [of _ j]) auto
    qed
    then show ?thesis using ih by simp
  qed
qed

text \<open>The delays of the loop are the backoff delays, and the run is a list of failed rounds
  followed by its last round.\<close>

lemma sint_backoffDelay: "sint (backoffDelay k) = min (500 * 2 ^ k) 300000"
proof -
  define x :: int where "x = 500 * 2 ^ k"
  have "0 < x" by (simp add: x_def)
  then have "- (2 ^ 31) \<le> min x 300000" "min x 300000 < 2 ^ 31"
    by (simp_all add: min_def)
  then have "signed_take_bit 31 (min x 300000) = min x 300000"
    by (intro signed_take_bit_int_eq_self) simp_all
  then show ?thesis
    by (simp add: backoffDelay_def x_def sint_sbintrunc')
qed

lemma nextDelay_backoffDelay: "nextDelay (backoffDelay k) = backoffDelay (Suc k)"
proof -
  have p: "0 < sint (backoffDelay k)" "sint (backoffDelay k) \<le> 300000"
    by (simp_all add: sint_backoffDelay)
  have "sint (nextDelay (backoffDelay k)) = min (2 * min (500 * 2 ^ k) 300000) 300000"
    using sint_nextDelay [OF p] by (simp add: sint_backoffDelay)
  also have "\<dots> = min (500 * 2 ^ Suc k) 300000"
    by (simp add: min_def)
  finally have "sint (nextDelay (backoffDelay k)) = sint (backoffDelay (Suc k))"
    by (simp only: sint_backoffDelay)
  then show ?thesis by (rule signed_word_eqI)
qed

lemma failedRounds_refl [simp]: "failedRounds k k = []"
  by (simp add: failedRounds_def)

lemma failedRounds_step:
  "k < m \<Longrightarrow> failedRounds k m = [WaitFor (backoffDelay k), TryConnect False] @ failedRounds (Suc k) m"
  by (simp add: failedRounds_def upt_conv_Cons)

lemma loop_shape:
  "reconnect_loop env r (backoffDelay k) k tr = (res, tr') \<Longrightarrow> r = 40 - int k \<Longrightarrow> k \<le> 39 \<Longrightarrow>
   (\<exists>m. k \<le> m \<and> m < 39
        \<and> (\<forall>j. k \<le> j \<and> j < m \<longrightarrow> \<not> shutdownSeen env j \<and> \<not> connectOk env j)
        \<and> (if shutdownSeen env m
            then \<not> res \<and> tr' = tr @ failedRounds k m @ [WaitFor (backoffDelay m)]
            else connectOk env m \<and> res
              \<and> tr' = tr @ failedRounds k m
                      @ [WaitFor (backoffDelay m), TryConnect True, OnSocketReconnected]))
   \<or> ((\<forall>j. k \<le> j \<and> j < 39 \<longrightarrow> \<not> shutdownSeen env j \<and> \<not> connectOk env j)
        \<and> \<not> res \<and> tr' = tr @ failedRounds k 39)"
proof (induction env r "backoffDelay k" k tr arbitrary: res tr' rule: reconnect_loop.induct)
  case (1 env r k tr)
  have vac: "(n \<le> j \<and> j < n) = False" for n j :: nat
    by auto
  consider (stop) "\<not> 0 < r - 1"
    | (shut) "0 < r - 1" "shutdownSeen env k"
    | (succ) "0 < r - 1" "\<not> shutdownSeen env k" "connectOk env k"
    | (retry) "0 < r - 1" "\<not> shutdownSeen env k" "\<not> connectOk env k"
    by blast
  then show ?case
  proof cases
    case stop
    then have "k = 39" using "1.prems"(2,3) by simp
    moreover have "\<not> res" "tr' = tr"
      using stop "1.prems"(1) by (simp_all add: loop_stop)
    ultimately show ?thesis by (intro disjI2) (simp add: vac)
  next
    case shut
    then have k: "k < 39" using "1.prems"(2) by simp
    have "\<not> res" "tr' = tr @ [WaitFor (backoffDelay k)]"
      using shut "1.prems"(1) by (simp_all add: loop_shutdown)
    then show ?thesis
      using k shut(2) by (intro disjI1 exI [of _ k]) (simp add: vac)
  next
    case succ
    then have k: "k < 39" using "1.prems"(2) by simp
    have "res" "tr' = tr @ [WaitFor (backoffDelay k), TryConnect True, OnSocketReconnected]"
      using succ "1.prems"(1) by (simp_all add: loop_success)
    then show ?thesis
      using k succ(2,3) by (intro disjI1 exI [of _ k]) (simp add: vac)
  next
    case retry
    then have k: "k < 39" using "1.prems"(2) by simp
    let ?tr1 = "(tr @ [WaitFor (backoffDelay k)]) @ [TryConnect False]"
    have rec: "reconnect_loop env (r - 1) (backoffDelay (Suc k)) (Suc k) ?tr1 = (res, tr')"
      using "1.prems"(1) loop_retry [OF retry, of "backoffDelay k" tr]
      by (simp add: nextDelay_backoffDelay)
    have r': "r - 1 = 40 - int (Suc k)" "Suc k \<le> 39"
      using "1.prems"(2) k by simp_all
    note ih = "1.hyps" [OF refl retry(1) refl retry(2,3)
        nextDelay_backoffDelay rec r']
    have pre: "tr @ failedRounds k m @ xs = ?tr1 @ failedRounds (Suc k) m @ xs"
      if "Suc k \<le> m" for m xs
      using that failedRounds_step [of k m] by simp
    have low: "(\<forall>j. k \<le> j \<and> j < m \<longrightarrow> \<not> shutdownSeen env j \<and> \<not> connectOk env j)"
      if "\<forall>j. Suc k \<le> j \<and> j < m \<longrightarrow> \<not> shutdownSeen env j \<and> \<not> connectOk env j" for m
    proof (intro allI impI)
      fix j assume "k \<le> j \<and> j < m"
      then show "\<not> shutdownSeen env j \<and> \<not> connectOk env j"
        using that retry(2,3) by (cases "j = k") auto
    qed
    from ih show ?thesis
    proof
      assume "\<exists>m. Suc k \<le> m \<and> m < 39
        \<and> (\<forall>j. Suc k \<le> j \<and> j < m \<longrightarrow> \<not> shutdownSeen env j \<and> \<not> connectOk env j)
        \<and> (if shutdownSeen env m
            then \<not> res \<and> tr' = ?tr1 @ failedRounds (Suc k) m @ [WaitFor (backoffDelay m)]
            else connectOk env m \<and> res
              \<and> tr' = ?tr1 @ failedRounds (Suc k) m
                      @ [WaitFor (backoffDelay m), TryConnect True, OnSocketReconnected])"
      then obtain m where m: "Suc k \<le> m" "m < 39"
        "\<forall>j. Suc k \<le> j \<and> j < m \<longrightarrow> \<not> shutdownSeen env j \<and> \<not> connectOk env j"
        "if shutdownSeen env m
            then \<not> res \<and> tr' = ?tr1 @ failedRounds (Suc k) m @ [WaitFor (backoffDelay m)]
            else connectOk env m \<and> res
              \<and> tr' = ?tr1 @ failedRounds (Suc k) m
                      @ [WaitFor (backoffDelay m), TryConnect True, OnSocketReconnected]"
        by blast
      have "if shutdownSeen env m
            then \<not> res \<and> tr' = tr @ failedRounds k m @ [WaitFor (backoffDelay m)]
            else connectOk env m \<and> res
              \<and> tr' = tr @ failedRounds k m
                      @ [WaitFor (backoffDelay m), TryConnect True, OnSocketReconnected]"
        using m(4) pre [OF m(1)] by (simp split: if_splits)
      then show ?thesis
        using m(1,2) low [OF m(3)] by (intro disjI1 exI [of _ m]) simp
    next
      assume a: "(\<forall>j. Suc k \<le> j \<and> j < 39 \<longrightarrow> \<not> shutdownSeen env j \<and> \<not> connectOk env j)
        \<and> \<not> res \<and> tr' = ?tr1 @ failedRounds (Suc k) 39"
      then have e: "tr' = tr @ failedRounds k 39"
        using pre [of 39 "[]"] r'(2) by simp
      from a have p: "\<forall>j. Suc k \<le> j \<and> j < 39 \<longrightarrow> \<not> shutdownSeen env j \<and> \<not> connectOk env j"
        and n: "\<not> res"
        by simp_all
      show ?thesis
        by (intro disjI2 conjI) (rule low [OF p] n e)+
    qed
  qed
qed

text \<open>
  C9: in every run of \<^verbatim>\<open>reconnect\<close>, the wait before the attempt number \<open>k + 1\<close> is
  \<open>min (500 * 2 ^ k) 300000\<close> milliseconds (5 minutes), there are at most 39 waits and
  attempts (the retry limit of 40 is decremented before it is tested), the attempts follow
  the given outcomes in order, the function returns true exactly when an attempt succeeds
  (which happens exactly when some outcome among the first 39 is a success and no shutdown
  is seen up to it), that attempt is the last one, and \<^verbatim>\<open>onSocketReconnected\<close> is called
  once then and never otherwise. The order is fixed too: the run is a list of rounds, each a
  wait of the backoff delay followed by a failed attempt, and it ends either at the retry
  limit, or with a wait during which the shutdown is seen, or with a wait followed by the
  successful attempt and then the call of \<^verbatim>\<open>onSocketReconnected\<close>.
\<close>

theorem C9_reconnect:
  assumes "reconnect env = (res, tr)"
  shows "(\<forall>k<length (waits tr). sint (waits tr ! k) = min (500 * 2 ^ k) 300000)
       \<and> length (attempts tr) \<le> length (waits tr) \<and> length (waits tr) \<le> 39
       \<and> attempts tr = map (connectOk env) [0..<length (attempts tr)]
       \<and> res = (True \<in> set (attempts tr))
       \<and> res = (\<exists>j<39. connectOk env j \<and> (\<forall>i\<le>j. \<not> shutdownSeen env i))
       \<and> (res \<longrightarrow> attempts tr = replicate (length (attempts tr) - 1) False @ [True])
       \<and> reconnectedCalls tr = (if res then 1 else 0)
       \<and> (\<forall>k. sint (backoffDelay k) = min (500 * 2 ^ k) 300000)
       \<and> ((\<exists>m<39. (\<forall>j<m. \<not> shutdownSeen env j \<and> \<not> connectOk env j)
              \<and> (if shutdownSeen env m
                  then \<not> res \<and> tr = failedRounds 0 m @ [WaitFor (backoffDelay m)]
                  else connectOk env m \<and> res
                    \<and> tr = failedRounds 0 m
                           @ [WaitFor (backoffDelay m), TryConnect True, OnSocketReconnected]))
          \<or> ((\<forall>j<39. \<not> shutdownSeen env j \<and> \<not> connectOk env j)
              \<and> \<not> res \<and> tr = failedRounds 0 39))"
proof -
  have l: "reconnect_loop env 40 500 0 [] = (res, tr)"
    using assms by (simp add: reconnect_def)
  have w: "\<forall>k<length (waits tr). sint (waits tr ! k) = min (500 * 2 ^ k) 300000"
    using loop_waits [OF l] by simp
  have n: "length (attempts tr) \<le> length (waits tr)" "length (waits tr) \<le> 39"
    using loop_lengths [OF l] by simp_all
  from loop_attempts [OF l]
  obtain bs where bs: "attempts tr = attempts [] @ bs"
    "bs = map (connectOk env) [0..<0 + length bs]"
    "res = (True \<in> set bs)"
    "res \<longrightarrow> bs = replicate (length bs - 1) False @ [True]"
    by blast
  have "bs = attempts tr" using bs(1) by simp
  with bs(2,3,4)
  have a: "attempts tr = map (connectOk env) [0..<length (attempts tr)]"
    "res = (True \<in> set (attempts tr))"
    "res \<longrightarrow> attempts tr = replicate (length (attempts tr) - 1) False @ [True]"
    by simp_all
  have "res = (\<exists>j\<ge>0. int j - int 0 < 40 - 1 \<and> connectOk env j
            \<and> (\<forall>i. 0 \<le> i \<and> i \<le> j \<longrightarrow> \<not> shutdownSeen env i))"
    by (rule loop_result [OF l])
  then have r: "res = (\<exists>j<39. connectOk env j \<and> (\<forall>i\<le>j. \<not> shutdownSeen env i))"
    by simp
  have c: "reconnectedCalls tr = (if res then 1 else 0)"
    using loop_calls [OF l] by (simp add: reconnectedCalls_def)
  have b: "\<forall>k. sint (backoffDelay k) = min (500 * 2 ^ k) 300000"
    by (simp add: sint_backoffDelay)
  have l0: "reconnect_loop env 40 (backoffDelay 0) 0 [] = (res, tr)"
    using l by (simp add: backoffDelay_def)
  have s: "(\<exists>m<39. (\<forall>j<m. \<not> shutdownSeen env j \<and> \<not> connectOk env j)
              \<and> (if shutdownSeen env m
                  then \<not> res \<and> tr = failedRounds 0 m @ [WaitFor (backoffDelay m)]
                  else connectOk env m \<and> res
                    \<and> tr = failedRounds 0 m
                           @ [WaitFor (backoffDelay m), TryConnect True, OnSocketReconnected]))
          \<or> ((\<forall>j<39. \<not> shutdownSeen env j \<and> \<not> connectOk env j)
              \<and> \<not> res \<and> tr = failedRounds 0 39)"
  proof -
    from loop_shape [OF l0]
    consider m where "0 \<le> m" "m < 39"
        "\<forall>j. 0 \<le> j \<and> j < m \<longrightarrow> \<not> shutdownSeen env j \<and> \<not> connectOk env j"
        "if shutdownSeen env m
            then \<not> res \<and> tr = [] @ failedRounds 0 m @ [WaitFor (backoffDelay m)]
            else connectOk env m \<and> res
              \<and> tr = [] @ failedRounds 0 m
                      @ [WaitFor (backoffDelay m), TryConnect True, OnSocketReconnected]"
      | "\<forall>j. 0 \<le> j \<and> j < 39 \<longrightarrow> \<not> shutdownSeen env j \<and> \<not> connectOk env j"
        "\<not> res" "tr = [] @ failedRounds 0 39"
      by auto
    then show ?thesis
    proof cases
      case 1
      have "if shutdownSeen env m
                  then \<not> res \<and> tr = failedRounds 0 m @ [WaitFor (backoffDelay m)]
                  else connectOk env m \<and> res
                    \<and> tr = failedRounds 0 m
                           @ [WaitFor (backoffDelay m), TryConnect True, OnSocketReconnected]"
        using 1(4) by (simp only: append_Nil)
      moreover have "\<forall>j<m. \<not> shutdownSeen env j \<and> \<not> connectOk env j"
        using 1(3) by simp
      ultimately show ?thesis
        using 1(2) by (intro disjI1 exI [of _ m] conjI)
    next
      case 2
      then show ?thesis by (intro disjI2) simp
    qed
  qed
  show ?thesis
    by (intro conjI) (rule w n a r c b s)+
qed

text \<open>Scenario S6 of the specification: four failures, then success.\<close>

theorem C9_reconnect_witness:
  "reconnect \<lparr>shutdownSeen = (\<lambda>k. False), connectOk = (\<lambda>k. k = 4)\<rparr>
     = (True, [WaitFor 500, TryConnect False, WaitFor 1000, TryConnect False,
               WaitFor 2000, TryConnect False, WaitFor 4000, TryConnect False,
               WaitFor 8000, TryConnect True, OnSocketReconnected])
   \<and> reconnectedCalls [WaitFor 500, TryConnect False, WaitFor 1000, TryConnect False,
               WaitFor 2000, TryConnect False, WaitFor 4000, TryConnect False,
               WaitFor 8000, TryConnect True, OnSocketReconnected] = 1"
proof -
  have e: "reconnect \<lparr>shutdownSeen = (\<lambda>k. False), connectOk = (\<lambda>k. k = 4)\<rparr>
     = (True, [WaitFor 500, TryConnect False, WaitFor 1000, TryConnect False,
               WaitFor 2000, TryConnect False, WaitFor 4000, TryConnect False,
               WaitFor 8000, TryConnect True, OnSocketReconnected])"
    by (simp add: reconnect_def loop_retry loop_success nextDelay_def kMaxDelay_def)
  from C9_reconnect [OF e]
  have "reconnectedCalls [WaitFor 500, TryConnect False, WaitFor 1000, TryConnect False,
               WaitFor 2000, TryConnect False, WaitFor 4000, TryConnect False,
               WaitFor 8000, TryConnect True, OnSocketReconnected] = (if True then 1 else 0)"
    by blast
  then show ?thesis using e by simp
qed

section \<open>Properties of the request multiplexer\<close>

lemma mux_inv_new: "mux_inv ops (newRequestMultiplexer ops)"
  by (simp add: mux_inv_def newRequestMultiplexer_def getCurrentMaximalRequest_def getRequests_def)

lemma mux_inv_step: "mux_inv ops m \<Longrightarrow> mux_inv ops (snd (mux_step ops o' m))"
  by (cases o')
     (auto simp: mux_inv_def addRequest_def removeRequest_def getCurrentMaximalRequest_def
        getRequests_def updateMaximalRequest_def Let_def)

lemma mux_inv_run: "mux_inv ops m \<Longrightarrow> mux_inv ops (mux_run ops os m)"
  unfolding mux_run_def
  by (induction os arbitrary: m) (simp_all add: mux_inv_step)

text \<open>
  C2: after every sequence of addRequest and removeRequest operations on a new multiplexer,
  and again after one more operation, the cached maximal request equals the fold of the merge
  over the stored requests from the default-constructed request; a removal, and an addition
  that is stored, change the stored sequence as said and report through the flag whether the
  maximal request changed (the old and the new maximal are not equivalent).
\<close>

theorem C2_multiplexer_maximal:
  assumes "m = mux_run ops os (newRequestMultiplexer ops)"
    and "mux_step ops o' m = (flag, m')"
  shows "getCurrentMaximalRequest m
           = foldl (intersectionOf ops) (defaultRequest ops) (getRequests m)
       \<and> getCurrentMaximalRequest m'
           = foldl (intersectionOf ops) (defaultRequest ops) (getRequests m')
       \<and> (case o' of
             AddRequest stored r \<Rightarrow>
               getRequests m' = (if stored then getRequests m @ [r] else getRequests m)
               \<and> flag = (if stored
                    then Some (\<not> equivalentTo ops (getCurrentMaximalRequest m)
                                   (getCurrentMaximalRequest m'))
                    else None)
           | RemoveRequest index \<Rightarrow>
               getRequests m' = eraseAt index (getRequests m)
               \<and> flag = Some (\<not> equivalentTo ops (getCurrentMaximalRequest m)
                                   (getCurrentMaximalRequest m')))"
proof -
  have i: "mux_inv ops m"
    using assms(1) mux_inv_run [OF mux_inv_new] by simp
  have i': "mux_inv ops m'"
    using mux_inv_step [OF i, of o'] assms(2) by simp
  have f: "(case o' of
             AddRequest stored r \<Rightarrow>
               getRequests m' = (if stored then getRequests m @ [r] else getRequests m)
               \<and> flag = (if stored
                    then Some (\<not> equivalentTo ops (getCurrentMaximalRequest m)
                                   (getCurrentMaximalRequest m'))
                    else None)
           | RemoveRequest index \<Rightarrow>
               getRequests m' = eraseAt index (getRequests m)
               \<and> flag = Some (\<not> equivalentTo ops (getCurrentMaximalRequest m)
                                   (getCurrentMaximalRequest m')))"
    using assms(2)
    by (cases o')
       (auto simp: addRequest_def removeRequest_def getCurrentMaximalRequest_def getRequests_def
          updateMaximalRequest_def Let_def split: if_splits)
  show ?thesis using i i' f unfolding mux_inv_def by blast
qed

text \<open>The test AddManyRemoveMaximal, shortened: add 10, add 5, remove the first.\<close>

theorem C2_multiplexer_maximal_witness:
  "mux_step dummyOps (RemoveRequest 0)
     (mux_run dummyOps [AddRequest True 10, AddRequest True 5] (newRequestMultiplexer dummyOps))
     = (Some True, \<lparr>mRequests = [5], mCurrentMaximalRequest = 5\<rparr>)
   \<and> getCurrentMaximalRequest \<lparr>mRequests = [5::int], mCurrentMaximalRequest = 5\<rparr>
     = foldl (intersectionOf dummyOps) (defaultRequest dummyOps)
         (getRequests \<lparr>mRequests = [5::int], mCurrentMaximalRequest = 5\<rparr>)"
proof -
  have e: "mux_step dummyOps (RemoveRequest 0)
     (mux_run dummyOps [AddRequest True 10, AddRequest True 5] (newRequestMultiplexer dummyOps))
     = (Some True, \<lparr>mRequests = [5], mCurrentMaximalRequest = 5\<rparr>)"
    by (simp add: mux_run_def dummyOps_def newRequestMultiplexer_def addRequest_def
          removeRequest_def updateMaximalRequest_def eraseAt_def)
  from C2_multiplexer_maximal [OF refl e] show ?thesis
    using e by blast
qed

section \<open>The scan-monitor state machine on concrete runs\<close>

text \<open>
  C1 (the list of monitoring nanoapps holds the nanoapps whose last successful transition was
  an enable) fails on the simplest run. On a new manager, nanoapp 1 asks to enable the scan
  monitor: the request is queued and the driver is called. The driver then reports: enabled,
  no error. The nanoapp is sent a success result, and the list of monitoring nanoapps is still
  empty: \<^verbatim>\<open>nanoappHasScanMonitorRequest\<close> answers true for an instance id that is not in
  the list (it compares the index found with the size using \<^verbatim>\<open>==\<close>), so
  \<^verbatim>\<open>updateNanoappScanMonitoringList\<close> takes the nanoapp for one that has a request already.
\<close>

theorem C1_successful_enable_not_recorded:
  "configureScanMonitor wifiEnvOk newWifiRequestManager 1 True 100
     = (True, \<lparr>mScanMonitorNanoapps = [],
               mScanMonitorStateTransitions =
                 [\<lparr>nanoappInstanceId = 1, cookie = 100, enable = True\<rparr>],
               wifiCalls = [PlatformConfigureScanMonitor True]\<rparr>)
   \<and> handleScanMonitorStateChangeSync wifiEnvOk
        \<lparr>mScanMonitorNanoapps = [],
         mScanMonitorStateTransitions =
           [\<lparr>nanoappInstanceId = 1, cookie = 100, enable = True\<rparr>],
         wifiCalls = [PlatformConfigureScanMonitor True]\<rparr> True CHRE_ERROR_NONE
     = Inr \<lparr>mScanMonitorNanoapps = [], mScanMonitorStateTransitions = [],
            wifiCalls = [PlatformConfigureScanMonitor True, PostAsyncResult 1 True 0 100]\<rparr>"
  by (simp add: configureScanMonitor_def handleScanMonitorStateChangeSync_def
        handlePendingTransitions.simps postScanMonitorAsyncResultEventFatal_def
        postScanMonitorAsyncResultEvent_def updateNanoappScanMonitoringList_def
        nanoappHasScanMonitorRequest_def scanMonitorIsInRequestedState_def
        scanMonitorStateTransitionIsRequired_def scanMonitorIsEnabled_def
        addScanMonitorRequestToQueue_def wifiDo_def wifiEnvOk_def newWifiRequestManager_def
        CHRE_ERROR_NONE_def)









text \<open>
  The helper answers the opposite of what its name says: true exactly for the instance ids
  that are not in the list.
\<close>

lemma dvFind_le: "dvFind xs x \<le> length xs"
  by (induction xs) simp_all

lemma dvFind_size_iff: "dvFind xs x = length xs \<longleftrightarrow> x \<notin> set xs"
proof (induction xs)
  case Nil
  then show ?case by simp
next
  case (Cons y ys)
  then show ?case using dvFind_le [of ys x] by auto
qed

lemma nanoappHasScanMonitorRequest_inverted:
  "fst (nanoappHasScanMonitorRequest m instanceId) = (\<not> hasActiveScanMonitorRequest m instanceId)"
  by (simp add: nanoappHasScanMonitorRequest_def hasActiveScanMonitorRequest_def Let_def
        dvFind_size_iff)

text \<open>
  Outside the states that a run reaches, the flag that \<^verbatim>\<open>configureScanMonitor\<close> passes to its
  two predicates differs from the nanoapp having a request: the source passes the instance id
  where the predicates take the flag. With nanoapp 7 in the list, a disable asked by nanoapp
  9, which has no request, is queued and sent to the driver. No run from a new manager reaches
  such a state, since the list is never filled.
\<close>

lemma configureScanMonitor_flag_is_instance_id:
  "\<not> hasActiveScanMonitorRequest
       \<lparr>mScanMonitorNanoapps = [7], mScanMonitorStateTransitions = [], wifiCalls = []\<rparr> 9
   \<and> scanMonitorIsInRequestedState
       \<lparr>mScanMonitorNanoapps = [7], mScanMonitorStateTransitions = [], wifiCalls = []\<rparr> False
       (hasActiveScanMonitorRequest
          \<lparr>mScanMonitorNanoapps = [7], mScanMonitorStateTransitions = [], wifiCalls = []\<rparr> 9)
   \<and> configureScanMonitor wifiEnvOk
       \<lparr>mScanMonitorNanoapps = [7], mScanMonitorStateTransitions = [], wifiCalls = []\<rparr>
       9 False 100
     = (True, \<lparr>mScanMonitorNanoapps = [7],
               mScanMonitorStateTransitions =
                 [\<lparr>nanoappInstanceId = 9, cookie = 100, enable = False\<rparr>],
               wifiCalls = [PlatformConfigureScanMonitor False]\<rparr>)"
  by (simp add: configureScanMonitor_def hasActiveScanMonitorRequest_def
        scanMonitorIsInRequestedState_def scanMonitorStateTransitionIsRequired_def
        scanMonitorIsEnabled_def addScanMonitorRequestToQueue_def wifiDo_def wifiEnvOk_def)



section \<open>Properties of the event loop\<close>

subsection \<open>Looking up the system instance id\<close>

text \<open>
  C10: whatever the list of nanoapps holds, \<^verbatim>\<open>lookupAppByInstanceId(kSystemInstanceId)\<close> is
  \<^verbatim>\<open>nullptr\<close>; so when \<^verbatim>\<open>freeEvent\<close> calls the free callback of an event sent by the system
  instance id, \<^verbatim>\<open>mCurrentApp\<close> is null during the call (and null again after it).
\<close>

theorem C10_system_sender_no_current_app:
  "lookupAppByInstanceId (s\<lparr>mNanoapps := apps\<rparr>) kSystemInstanceId = None
   \<and> (senderInstanceId (eventAt s event) = kSystemInstanceId
        \<and> freeCallback (eventAt s event) = Some callback \<longrightarrow>
      calls (freeEvent s event)
        = calls s @ [FreeCallback callback (eventType (eventAt s event))
                       (eventData (eventAt s event)) None]
      \<and> mCurrentApp (freeEvent s event) = None)"
  by (simp add: lookupAppByInstanceId_def freeEvent_def loopCall_def eventAt_def Let_def)

text \<open>
  A list that holds a nanoapp whose instance id is the system's: the lookup still answers
  null, and the free callback runs with no current nanoapp.
\<close>

theorem C10_system_sender_no_current_app_witness:
  "calls (freeEvent (stoppedLoop\<lparr>mNanoapps := [mkNanoapp 6 kSystemInstanceId [] []]\<rparr>) 0)
     = [FreeCallback 42 0x100 7 None]"
proof -
  let ?s = "stoppedLoop\<lparr>mNanoapps := [mkNanoapp 6 kSystemInstanceId [] []]\<rparr>"
  have "senderInstanceId (eventAt ?s 0) = kSystemInstanceId
        \<and> freeCallback (eventAt ?s 0) = Some 42"
    by (simp add: eventAt_def stoppedLoop_def newEvent_def)
  with C10_system_sender_no_current_app [where s = ?s and event = 0 and callback = 42]
  have "calls (freeEvent ?s 0)
        = calls ?s @ [FreeCallback 42 (eventType (eventAt ?s 0)) (eventData (eventAt ?s 0)) None]"
    by blast
  then show ?thesis
    by (simp add: eventAt_def stoppedLoop_def newEvent_def)
qed

subsection \<open>What freeing and distributing leave of the pool\<close>

lemma freeEvent_mEventAllocated:
  "mEventAllocated (freeEvent s event) = (mEventAllocated s)(event := False)"
  by (simp add: freeEvent_def loopCall_def Let_def split: option.splits)

lemma distributeTo_mEventAllocated:
  "mEventAllocated (distributeTo is event s) = mEventAllocated s"
  by (induction "is" arbitrary: s) (simp_all add: nanoappPostEvent_def Let_def)

subsection \<open>Posting an event\<close>



text \<open>
  Were the inbound queue smaller than the pool, a post could fail on a full queue while the
  pool has a free block: with a pool of two events and a queue of one, the second post on a
  running loop returns false.
\<close>

lemma postEvent_full_queue_when_queue_smaller:
  "fst (postEvent smallEnv emptyEventLoop 1 2 None 0 0)
   \<and> mRunning (snd (postEvent smallEnv emptyEventLoop 1 2 None 0 0))
   \<and> poolAllocate smallEnv (snd (postEvent smallEnv emptyEventLoop 1 2 None 0 0)) = Some 1
   \<and> \<not> fst (postEvent smallEnv (snd (postEvent smallEnv emptyEventLoop 1 2 None 0 0))
                1 2 None 0 0)"
  by (simp add: postEvent_def poolAllocate_def smallEnv_def emptyEventLoop_def upt_rec)





lemma inboundQueueOk_pop_free:
  assumes "inboundQueueOk env s" and "mEvents s = event # rest"
  shows "inboundQueueOk env (freeEvent (s\<lparr>mEvents := rest\<rparr>) event)"
  using assms
  by (auto simp: inboundQueueOk_def list_all_iff freeEvent_mEvents freeEvent_mEventAllocated)

lemma inboundQueueOk_pop_distribute:
  assumes "inboundQueueOk env s" and "mEvents s = event # rest"
  shows "inboundQueueOk env (distributeEvent (s\<lparr>mEvents := rest\<rparr>) event)"
proof -
  let ?s = "s\<lparr>mEvents := rest\<rparr>"
  have a: "mEventAllocated (distributeEvent ?s event) = mEventAllocated s
           \<or> mEventAllocated (distributeEvent ?s event) = (mEventAllocated s)(event := False)"
    by (simp add: distributeEvent_def Let_def freeEvent_mEventAllocated loopCall_def
          distributeTo_mEventAllocated)
  have "mEvents (distributeEvent ?s event) = rest"
    by (simp add: distributeEvent_mEvents)
  then show ?thesis
    using assms a by (auto simp: inboundQueueOk_def list_all_iff)
qed



subsection \<open>Starting a nanoapp\<close>

lemma findNanoappInstanceIdByAppId_None:
  "(findNanoappInstanceIdByAppId s appId = None)
     = (\<not> (\<exists>other\<in>set (mNanoapps s). mAppId other = appId))"
  by (auto simp: findNanoappInstanceIdByAppId_def find_None_iff)

lemma startNanoapp_null: "startNanoapp env s None = (False, s)"
  by (simp add: startNanoapp_def)

text \<open>
  C7: for a nanoapp that is given (the pointer is not null), \<^verbatim>\<open>startNanoapp\<close> fails exactly
  when a nanoapp with the same app id is in the list, or the list cannot take one more
  nanoapp, or the nanoapp's start entry point returns false. In the last case the list of
  nanoapps is as it was before the call, and the calls made are the start entry point and a
  log line: the end entry point is not called. When it succeeds, the nanoapp is at the end of
  the list, with the next instance id.
\<close>

theorem C7_startNanoapp_fails_exactly_when:
  "(\<not> fst (startNanoapp env s (Some app)))
     = ((\<exists>other\<in>set (mNanoapps s). mAppId other = mAppId app)
        \<or> \<not> prepareForPushOk env
        \<or> \<not> nanoappStart env (mAppId app))
   \<and> (\<not> (\<exists>other\<in>set (mNanoapps s). mAppId other = mAppId app)
        \<and> prepareForPushOk env \<and> \<not> nanoappStart env (mAppId app) \<longrightarrow>
      mNanoapps (snd (startNanoapp env s (Some app))) = mNanoapps s
      \<and> calls (snd (startNanoapp env s (Some app)))
          = calls s @ [NanoappStart (mLastInstanceId s + 1), LoopLog ''Nanoapp failed to start'']
      \<and> (\<forall>i. NanoappEnd i
               \<notin> set (drop (length (calls s)) (calls (snd (startNanoapp env s (Some app)))))))
   \<and> (fst (startNanoapp env s (Some app)) \<longrightarrow>
      mNanoapps (snd (startNanoapp env s (Some app)))
        = mNanoapps s @ [app\<lparr>mInstanceId := mLastInstanceId s + 1\<rparr>])"
proof (cases "findNanoappInstanceIdByAppId s (mAppId app)")
  case (Some existingInstanceId)
  then have "\<exists>other\<in>set (mNanoapps s). mAppId other = mAppId app"
    using findNanoappInstanceIdByAppId_None [of s "mAppId app"] by simp
  then show ?thesis
    using Some by (simp add: startNanoapp_def)
next
  case None
  then have "\<not> (\<exists>other\<in>set (mNanoapps s). mAppId other = mAppId app)"
    using findNanoappInstanceIdByAppId_None [of s "mAppId app"] by simp
  then show ?thesis
    using None
    by (simp add: startNanoapp_def getNextInstanceId_def loopCall_def Let_def)
qed

theorem C7_startNanoapp_fails_exactly_when_witness:
  "\<not> fst (startNanoapp smallEnv emptyEventLoop (Some (mkNanoapp 5 0 [] [])))
   \<and> mNanoapps (snd (startNanoapp smallEnv emptyEventLoop (Some (mkNanoapp 5 0 [] [])))) = []
   \<and> calls (snd (startNanoapp smallEnv emptyEventLoop (Some (mkNanoapp 5 0 [] []))))
       = [NanoappStart 1, LoopLog ''Nanoapp failed to start'']"
proof -
  have "\<not> (\<exists>other\<in>set (mNanoapps emptyEventLoop). mAppId other = mAppId (mkNanoapp 5 0 [] []))
        \<and> prepareForPushOk smallEnv \<and> \<not> nanoappStart smallEnv (mAppId (mkNanoapp 5 0 [] []))"
    by (simp add: emptyEventLoop_def smallEnv_def mkNanoapp_def)
  with C7_startNanoapp_fails_exactly_when [of smallEnv emptyEventLoop "mkNanoapp 5 0 [] []"]
  have "\<not> fst (startNanoapp smallEnv emptyEventLoop (Some (mkNanoapp 5 0 [] [])))"
    "mNanoapps (snd (startNanoapp smallEnv emptyEventLoop (Some (mkNanoapp 5 0 [] []))))
       = mNanoapps emptyEventLoop"
    "calls (snd (startNanoapp smallEnv emptyEventLoop (Some (mkNanoapp 5 0 [] []))))
       = calls emptyEventLoop
         @ [NanoappStart (mLastInstanceId emptyEventLoop + 1), LoopLog ''Nanoapp failed to start'']"
    by blast+
  then show ?thesis
    by (simp add: emptyEventLoop_def kSystemInstanceId_def)
qed

subsection \<open>Distributing an event\<close>

lemma distributeTo_calls: "calls (distributeTo is event s) = calls s"
  by (induction "is" arbitrary: s) (simp_all add: nanoappPostEvent_def Let_def)

lemma eventIsFor_incrementRefCount [simp]:
  "eventIsFor (incrementRefCount e) app = eventIsFor e app"
  by (simp add: eventIsFor_def incrementRefCount_def)

lemma incrementRefCount_add:
  "(incrementRefCount e)\<lparr>mRefCount := mRefCount (incrementRefCount e) + n\<rparr>
     = e\<lparr>mRefCount := mRefCount e + (1 + n)\<rparr>"
  by (simp add: incrementRefCount_def add.assoc)

text \<open>
  What the loop of \<^verbatim>\<open>distributeEvent\<close> does, for a list of distinct indices of nanoapps:
  the nanoapps the event is for have it appended to their queues, and the reference count
  grows by their number.
\<close>

lemma distributeTo_effect:
  "distinct is \<Longrightarrow> \<forall>i\<in>set is. i < length (mNanoapps s) \<Longrightarrow>
   length (mNanoapps (distributeTo is event s)) = length (mNanoapps s)
   \<and> (\<forall>j<length (mNanoapps s).
         mNanoapps (distributeTo is event s) ! j
           = (if j \<in> set is \<and> eventIsFor (eventAt s event) (mNanoapps s ! j)
              then (mNanoapps s ! j)\<lparr>mEventQueue := mEventQueue (mNanoapps s ! j) @ [event]\<rparr>
              else mNanoapps s ! j))
   \<and> mEventBlocks (distributeTo is event s)
       = (mEventBlocks s)
           (event := (eventAt s event)
              \<lparr>mRefCount := mRefCount (eventAt s event)
                 + of_nat (length (filter (\<lambda>i. eventIsFor (eventAt s event) (mNanoapps s ! i))
                                     is))\<rparr>)"
proof (induction "is" arbitrary: s)
  case Nil
  then show ?case by (simp add: eventAt_def)
next
  case (Cons i "is")
  let ?e = "eventAt s event"
  let ?push = "\<lambda>app. app\<lparr>mEventQueue := mEventQueue app @ [event]\<rparr>"
  have i: "i < length (mNanoapps s)" "i \<notin> set is" "distinct is"
    using Cons.prems by simp_all
  show ?case
  proof (cases "eventIsFor ?e (mNanoapps s ! i)")
    case False
    have r: "\<forall>k\<in>set is. k < length (mNanoapps s)" using Cons.prems by simp
    have step: "distributeTo (i # is) event s = distributeTo is event s"
      using False by simp
    from Cons.IH [OF i(3) r] False show ?thesis
      unfolding step by auto
  next
    case True
    let ?s1 = "nanoappPostEvent s i event"
    have step: "distributeTo (i # is) event s = distributeTo is event ?s1"
      using True by simp
    have a1: "mNanoapps ?s1 = (mNanoapps s)[i := ?push (mNanoapps s ! i)]"
      by (simp add: nanoappPostEvent_def Let_def)
    have b1: "mEventBlocks ?s1 = (mEventBlocks s)(event := incrementRefCount ?e)"
      by (simp add: nanoappPostEvent_def Let_def eventAt_def)
    have e1: "eventAt ?s1 event = incrementRefCount ?e"
      using b1 by (simp add: eventAt_def)
    have r: "\<forall>k\<in>set is. k < length (mNanoapps ?s1)" using Cons.prems a1 by simp
    have n: "mNanoapps ?s1 ! k = mNanoapps s ! k" if "k \<noteq> i" for k
      using that a1 by simp
    have ni: "mNanoapps ?s1 ! i = ?push (mNanoapps s ! i)"
      using a1 i(1) by simp
    have f: "filter (\<lambda>k. eventIsFor (incrementRefCount ?e) (mNanoapps ?s1 ! k)) is
           = filter (\<lambda>k. eventIsFor ?e (mNanoapps s ! k)) is"
    proof (rule filter_cong [OF refl])
      fix k assume "k \<in> set is"
      then have "k \<noteq> i" using i(2) by auto
      then show "eventIsFor (incrementRefCount ?e) (mNanoapps ?s1 ! k)
                 = eventIsFor ?e (mNanoapps s ! k)"
        using n by simp
    qed
    from Cons.IH [OF i(3) r, unfolded e1 f]
    have ih: "length (mNanoapps (distributeTo is event ?s1)) = length (mNanoapps ?s1)"
      "\<forall>j<length (mNanoapps ?s1).
         mNanoapps (distributeTo is event ?s1) ! j
           = (if j \<in> set is \<and> eventIsFor (incrementRefCount ?e) (mNanoapps ?s1 ! j)
              then ?push (mNanoapps ?s1 ! j) else mNanoapps ?s1 ! j)"
      "mEventBlocks (distributeTo is event ?s1)
         = (mEventBlocks ?s1)
             (event := (incrementRefCount ?e)
                \<lparr>mRefCount := mRefCount (incrementRefCount ?e)
                   + of_nat (length (filter (\<lambda>k. eventIsFor ?e (mNanoapps s ! k)) is))\<rparr>)"
      by blast+
    have l: "length (mNanoapps (distributeTo (i # is) event s)) = length (mNanoapps s)"
      using ih(1) a1 step by simp
    have q: "mNanoapps (distributeTo (i # is) event s) ! j
           = (if j \<in> set (i # is) \<and> eventIsFor ?e (mNanoapps s ! j)
              then ?push (mNanoapps s ! j) else mNanoapps s ! j)"
      if "j < length (mNanoapps s)" for j
    proof -
      have "j < length (mNanoapps ?s1)" using that a1 by simp
      then have g: "mNanoapps (distributeTo is event ?s1) ! j
           = (if j \<in> set is \<and> eventIsFor (incrementRefCount ?e) (mNanoapps ?s1 ! j)
              then ?push (mNanoapps ?s1 ! j) else mNanoapps ?s1 ! j)"
        using ih(2) by blast
      show ?thesis
      proof (cases "j = i")
        case True
        then show ?thesis
          using g step ni i(2) \<open>eventIsFor ?e (mNanoapps s ! i)\<close> by simp
      next
        case False
        then show ?thesis
          using g step n [OF False] by simp
      qed
    qed
    have c: "mEventBlocks (distributeTo (i # is) event s)
       = (mEventBlocks s)
           (event := ?e\<lparr>mRefCount := mRefCount ?e
                 + of_nat (length (filter (\<lambda>k. eventIsFor ?e (mNanoapps s ! k)) (i # is)))\<rparr>)"
      using ih(3) True unfolding step b1 incrementRefCount_add
      by (simp add: add.commute)
    show ?thesis using l q c by blast
  qed
qed

lemma filter_nth_length:
  "length (filter (\<lambda>i. P (xs ! i)) [0..<length xs]) = length (filter P xs)"
proof -
  have "filter P (map (\<lambda>i. xs ! i) [0..<length xs])
          = map (\<lambda>i. xs ! i) (filter (P \<circ> (\<lambda>i. xs ! i)) [0..<length xs])"
    by (rule filter_map)
  then have "length (filter P xs) = length (filter (P \<circ> (\<lambda>i. xs ! i)) [0..<length xs])"
    by (simp add: map_nth)
  then show ?thesis by (simp add: comp_def)
qed

lemma find_instance_id_cong:
  "map mInstanceId xs = map mInstanceId ys \<Longrightarrow>
   map_option mInstanceId (find (\<lambda>app. mInstanceId app = x) xs)
     = map_option mInstanceId (find (\<lambda>app. mInstanceId app = x) ys)"
proof (induction xs arbitrary: ys)
  case Nil
  then show ?case by simp
next
  case (Cons a xs)
  show ?case
  proof (cases ys)
    case Nil
    with Cons.prems show ?thesis by simp
  next
    case ys: (Cons b ys')
    with Cons.prems have h: "mInstanceId a = mInstanceId b"
      and t: "map mInstanceId xs = map mInstanceId ys'"
      by simp_all
    show ?thesis
      unfolding ys using Cons.IH [OF t] h by simp
  qed
qed

lemma lookupAppByInstanceId_queues:
  assumes "map mInstanceId (mNanoapps s1) = map mInstanceId (mNanoapps s)"
  shows "lookupAppByInstanceId s1 x = lookupAppByInstanceId s x"
  using find_instance_id_cong [OF assms, of x]
  by (simp add: lookupAppByInstanceId_def)

lemma distributeTo_all:
  "mNanoapps (distributeTo [0..<length (mNanoapps s)] event s)
     = map (\<lambda>app. if eventIsFor (eventAt s event) app
                  then app\<lparr>mEventQueue := mEventQueue app @ [event]\<rparr> else app) (mNanoapps s)"
  "eventAt (distributeTo [0..<length (mNanoapps s)] event s) event
     = (eventAt s event)
         \<lparr>mRefCount := mRefCount (eventAt s event)
            + of_nat (length (filter (eventIsFor (eventAt s event)) (mNanoapps s)))\<rparr>"
proof -
  have d: "distinct [0..<length (mNanoapps s)]"
    "\<forall>i\<in>set [0..<length (mNanoapps s)]. i < length (mNanoapps s)"
    by simp_all
  note r = distributeTo_effect [OF d, of event]
  show "mNanoapps (distributeTo [0..<length (mNanoapps s)] event s)
     = map (\<lambda>app. if eventIsFor (eventAt s event) app
                  then app\<lparr>mEventQueue := mEventQueue app @ [event]\<rparr> else app) (mNanoapps s)"
    using r by (intro nth_equalityI) simp_all
  show "eventAt (distributeTo [0..<length (mNanoapps s)] event s) event
     = (eventAt s event)
         \<lparr>mRefCount := mRefCount (eventAt s event)
            + of_nat (length (filter (eventIsFor (eventAt s event)) (mNanoapps s)))\<rparr>"
    using r filter_nth_length [of "eventIsFor (eventAt s event)" "mNanoapps s"]
    by (simp add: eventAt_def)
qed

lemma freeEvent_calls:
  "calls (freeEvent s event)
     = calls s @ (case freeCallback (eventAt s event) of
                    None \<Rightarrow> []
                  | Some callback \<Rightarrow>
                      [FreeCallback callback (eventType (eventAt s event))
                         (eventData (eventAt s event))
                         (lookupAppByInstanceId s (senderInstanceId (eventAt s event)))])"
  by (simp add: freeEvent_def loopCall_def Let_def split: option.splits)

lemma freeEvent_mEventBlocks: "mEventBlocks (freeEvent s event) = mEventBlocks s"
  by (simp add: freeEvent_def loopCall_def Let_def split: option.splits)

text \<open>
  C8: \<^verbatim>\<open>distributeEvent\<close> appends the event to the queue of a nanoapp exactly when the event
  targets the broadcast id and the nanoapp is registered for the event's type, or the event
  targets the nanoapp's instance id; the other nanoapps are left as they are, and the
  reference count grows by the number of nanoapps that took the event. When the event is
  unreferenced after that, a drop is logged if and only if the sender is not the system
  instance id, the free callback (if the event has one) is called with the sender looked up
  as the current nanoapp, and the event goes back to the pool; otherwise nothing is logged or
  called and the event stays allocated.
\<close>

theorem C8_distributeEvent:
  assumes e: "e = eventAt s event"
    and i: "interested = (\<lambda>app.
               (targetInstanceId e = kBroadcastInstanceId
                  \<and> isRegisteredForBroadcastEvent app (eventType e))
               \<or> targetInstanceId e = mInstanceId app)"
    and c: "count = mRefCount e + of_nat (length (filter interested (mNanoapps s)))"
    and s': "s' = distributeEvent s event"
  shows "mNanoapps s'
           = map (\<lambda>app. if interested app
                        then app\<lparr>mEventQueue := mEventQueue app @ [event]\<rparr> else app)
               (mNanoapps s)
       \<and> mRefCount (eventAt s' event) = count
       \<and> (count = 0 \<longrightarrow>
            calls s'
              = calls s
                @ (if senderInstanceId e \<noteq> kSystemInstanceId
                   then [LoopLog ''Dropping event''] else [])
                @ (case freeCallback e of
                     None \<Rightarrow> []
                   | Some callback \<Rightarrow>
                       [FreeCallback callback (eventType e) (eventData e)
                          (lookupAppByInstanceId s (senderInstanceId e))])
            \<and> \<not> mEventAllocated s' event)
       \<and> (count \<noteq> 0 \<longrightarrow> calls s' = calls s \<and> mEventAllocated s' = mEventAllocated s)"
proof -
  let ?s1 = "distributeTo [0..<length (mNanoapps s)] event s"
  let ?push = "\<lambda>app. if interested app
                        then app\<lparr>mEventQueue := mEventQueue app @ [event]\<rparr> else app"
  have int: "interested = eventIsFor e"
    unfolding i by (rule ext) (simp add: eventIsFor_def)
  have a1: "mNanoapps ?s1 = map ?push (mNanoapps s)"
    using distributeTo_all(1) [of s event] by (simp add: int e)
  have e1: "eventAt ?s1 event = e\<lparr>mRefCount := count\<rparr>"
    using distributeTo_all(2) [of s event] by (simp add: int e c)
  have u: "isUnreferenced (eventAt ?s1 event) = (count = 0)"
    by (simp add: e1 isUnreferenced_def)
  have ids: "map mInstanceId (map ?push (mNanoapps s)) = map mInstanceId (mNanoapps s)"
    by (induction "mNanoapps s") auto
  show ?thesis
  proof (cases "count = 0")
    case False
    then have "s' = ?s1"
      using u by (simp add: s' distributeEvent_def Let_def)
    then show ?thesis
      using False a1 e1 distributeTo_calls [of "[0..<length (mNanoapps s)]" event s]
        distributeTo_mEventAllocated [of "[0..<length (mNanoapps s)]" event s]
      by simp
  next
    case True
    define s2 where "s2 = (if senderInstanceId e \<noteq> kSystemInstanceId
               then loopCall (LoopLog ''Dropping event'') ?s1 else ?s1)"
    have f: "s' = freeEvent s2 event"
      using True u e1 by (simp add: s' distributeEvent_def Let_def s2_def)
    have a2: "mNanoapps s2 = map ?push (mNanoapps s)"
      using a1 by (simp add: loopCall_def s2_def)
    have e2: "eventAt s2 event = e\<lparr>mRefCount := count\<rparr>"
      using e1 by (simp add: loopCall_def eventAt_def s2_def)
    have c2: "calls s2 = calls s @ (if senderInstanceId e \<noteq> kSystemInstanceId
                   then [LoopLog ''Dropping event''] else [])"
      using distributeTo_calls [of "[0..<length (mNanoapps s)]" event s]
      by (simp add: loopCall_def s2_def)
    have l2: "lookupAppByInstanceId s2 (senderInstanceId e)
                = lookupAppByInstanceId s (senderInstanceId e)"
      by (rule lookupAppByInstanceId_queues) (simp only: a2 ids)
    have n: "mNanoapps s' = map ?push (mNanoapps s)"
      unfolding f freeEvent_mNanoapps by (rule a2)
    have r: "mRefCount (eventAt s' event) = count"
      using e2 unfolding f by (simp add: eventAt_def freeEvent_mEventBlocks)
    have k: "calls s'
              = calls s
                @ (if senderInstanceId e \<noteq> kSystemInstanceId
                   then [LoopLog ''Dropping event''] else [])
                @ (case freeCallback e of
                     None \<Rightarrow> []
                   | Some callback \<Rightarrow>
                       [FreeCallback callback (eventType e) (eventData e)
                          (lookupAppByInstanceId s (senderInstanceId e))])"
      unfolding f freeEvent_calls e2 c2 using l2 by (simp split: option.splits)
    have d: "\<not> mEventAllocated s' event"
      unfolding f by (simp add: freeEvent_mEventAllocated)
    show ?thesis using True n r k d by simp
  qed
qed

text \<open>
  A broadcast event of type 0x100 sent by the system: a nanoapp registered for the type takes
  it and nothing is called; with the nanoapp registered for another type nobody takes it,
  and its free callback is called with no current nanoapp and without a log line.
\<close>

theorem C8_distributeEvent_witness:
  "mNanoapps (distributeEvent stoppedLoop 0) = [mkNanoapp 6 1 [0x100] [0]]
   \<and> calls (distributeEvent stoppedLoop 0) = []
   \<and> mNanoapps (distributeEvent (stoppedLoop\<lparr>mNanoapps := [mkNanoapp 6 1 [0x200] []]\<rparr>) 0)
       = [mkNanoapp 6 1 [0x200] []]
   \<and> calls (distributeEvent (stoppedLoop\<lparr>mNanoapps := [mkNanoapp 6 1 [0x200] []]\<rparr>) 0)
       = [FreeCallback 42 0x100 7 None]"
proof -
  let ?t = "stoppedLoop\<lparr>mNanoapps := [mkNanoapp 6 1 [0x200] []]\<rparr>"
  note defs = stoppedLoop_def eventAt_def newEvent_def mkNanoapp_def
    isRegisteredForBroadcastEvent_def kBroadcastInstanceId_def kSystemInstanceId_def
    lookupAppByInstanceId_def
  from C8_distributeEvent [OF refl refl refl refl, of stoppedLoop 0]
  have a: "mNanoapps (distributeEvent stoppedLoop 0) = [mkNanoapp 6 1 [0x100] [0]]"
    "calls (distributeEvent stoppedLoop 0) = []"
    by (simp_all add: defs)
  from C8_distributeEvent [OF refl refl refl refl, of ?t 0]
  have b: "mNanoapps (distributeEvent ?t 0) = [mkNanoapp 6 1 [0x200] []]"
    "calls (distributeEvent ?t 0) = [FreeCallback 42 0x100 7 None]"
    by (simp_all add: defs)
  show ?thesis using a b by simp
qed

subsection \<open>The end of the run\<close>

text \<open>
  C3, as stated: at the exit of the main loop the inbound events are first distributed, then
  delivered. On a stopped loop with one nanoapp subscribed to the type of the one broadcast
  event waiting in the inbound queue, that order delivers the event to the nanoapp before its
  free callback runs; \<^verbatim>\<open>run\<close> never delivers it: it flushes the nanoapps' queues first (here
  they are empty) and then frees the inbound event without distributing it.
\<close>

theorem C3_inbound_event_not_delivered:
  "calls (specShutdownDrain stoppedLoop)
     = [NanoappHandleEvent 1 kSystemInstanceId 0x100 7, FreeCallback 42 0x100 7 None,
        NanoappEnd 1]
   \<and> calls (runShutdown stoppedLoop) = [FreeCallback 42 0x100 7 None, NanoappEnd 1]"
  by (simp add: specShutdownDrain_def runShutdown_def stoppedLoop_def mkNanoapp_def newEvent_def
        flushInboundEventQueue.simps flushNanoappEventQueues.simps freeInboundEvents.simps
        unloadAllNanoapps.simps unloadNanoappAtIndex_def dvErase_def
        distributeEvent_def eventIsFor_def isRegisteredForBroadcastEvent_def
        nanoappPostEvent_def incrementRefCount_def decrementRefCount_def isUnreferenced_def
        deliverEvents_def deliverNextEvent_def processNextEvent_def hasPendingEvent_def
        freeEvent_def lookupAppByInstanceId_def loopCall_def eventAt_def
        kSystemInstanceId_def kBroadcastInstanceId_def Let_def)

text \<open>What a round of \<^verbatim>\<open>deliverEvents\<close> leaves as it is.\<close>

lemma deliverNextEvent_mEvents: "mEvents (snd (deliverNextEvent s i)) = mEvents s"
  by (cases "mEventQueue (mNanoapps s ! i)")
     (simp_all add: deliverNextEvent_def processNextEvent_def loopCall_def Let_def
        freeEvent_mEvents)

lemma deliverTo_mEvents: "mEvents (snd (deliverTo is p s)) = mEvents s"
proof (induction "is" arbitrary: p s)
  case Nil
  then show ?case by simp
next
  case (Cons i "is")
  show ?case
  proof (cases "hasPendingEvent (mNanoapps s ! i)")
    case True
    obtain pending s1 where d: "deliverNextEvent s i = (pending, s1)"
      by (cases "deliverNextEvent s i")
    then have "mEvents s1 = mEvents s"
      using deliverNextEvent_mEvents [of s i] by simp
    then show ?thesis
      using True d Cons.IH [of "p \<or> pending" s1] by simp
  next
    case False
    then show ?thesis using Cons.IH [of p s] by simp
  qed
qed

lemma deliverEvents_mEvents: "mEvents (snd (deliverEvents s)) = mEvents s"
  by (simp add: deliverEvents_def deliverTo_mEvents)

lemma mInstanceId_popEvent [simp]: "mInstanceId (popEvent app) = mInstanceId app"
  by (simp add: popEvent_def)

lemma deliverEvents_instance_ids:
  "map mInstanceId (mNanoapps (snd (deliverEvents s))) = map mInstanceId (mNanoapps s)"
  by (simp add: deliverEvents_mNanoapps(1) comp_def)

text \<open>
  \<^verbatim>\<open>flushNanoappEventQueues\<close> returns with every queue empty; it leaves the inbound queue and
  the nanoapps' instance ids as they are.
\<close>

lemma flushNanoappEventQueues_queues:
  "\<forall>app\<in>set (mNanoapps (flushNanoappEventQueues s)). mEventQueue app = []"
proof (induction s rule: flushNanoappEventQueues.induct)
  case (1 s)
  obtain pending s1 where d: "deliverEvents s = (pending, s1)"
    by (cases "deliverEvents s")
  show ?case
  proof (cases pending)
    case True
    then have "flushNanoappEventQueues s = flushNanoappEventQueues s1"
      using d by (subst flushNanoappEventQueues.simps) simp
    then show ?thesis
      using "1.IH" [OF d [symmetric] refl True] by simp
  next
    case False
    then have r: "flushNanoappEventQueues s = s1"
      using d by (subst flushNanoappEventQueues.simps) simp
    have "\<not> (\<exists>app\<in>set (mNanoapps s). hasPendingEvent (popEvent app))"
      using deliverEvents_mNanoapps(2) [of s] d False by simp
    moreover have "mNanoapps s1 = map popEvent (mNanoapps s)"
      using deliverEvents_mNanoapps(1) [of s] d by simp
    ultimately show ?thesis
      unfolding r by (auto simp: hasPendingEvent_def)
  qed
qed

lemma flushNanoappEventQueues_frame:
  "mEvents (flushNanoappEventQueues s) = mEvents s
   \<and> map mInstanceId (mNanoapps (flushNanoappEventQueues s)) = map mInstanceId (mNanoapps s)"
proof (induction s rule: flushNanoappEventQueues.induct)
  case (1 s)
  obtain pending s1 where d: "deliverEvents s = (pending, s1)"
    by (cases "deliverEvents s")
  have f: "mEvents s1 = mEvents s"
    "map mInstanceId (mNanoapps s1) = map mInstanceId (mNanoapps s)"
    using deliverEvents_mEvents [of s] deliverEvents_instance_ids [of s] d by simp_all
  show ?case
  proof (cases pending)
    case True
    then have "flushNanoappEventQueues s = flushNanoappEventQueues s1"
      using d by (subst flushNanoappEventQueues.simps) simp
    then show ?thesis
      using "1.IH" [OF d [symmetric] refl True] f by simp
  next
    case False
    then have "flushNanoappEventQueues s = s1"
      using d by (subst flushNanoappEventQueues.simps) simp
    then show ?thesis using f by simp
  qed
qed

text \<open>
  The calls of a round of \<^verbatim>\<open>deliverEvents\<close>: one handler call for every nanoapp with a
  pending event, and free callbacks. The calls of \<^verbatim>\<open>flushNanoappEventQueues\<close>: one handler
  call for every event pending in a nanoapp's queue.
\<close>

lemma deliveryCalls_Nil [simp]: "deliveryCalls 0 []"
  by (simp add: deliveryCalls_def)

lemma deliveryCalls_append:
  "deliveryCalls m cs \<Longrightarrow> deliveryCalls n ds \<Longrightarrow> deliveryCalls (m + n) (cs @ ds)"
  by (simp add: deliveryCalls_def)

lemma freeEventCalls_delivery: "deliveryCalls 0 (freeEventCalls s event)"
  by (simp add: freeEventCalls_def deliveryCalls_def split: option.splits)

lemma freeEvent_calls': "calls (freeEvent s event) = calls s @ freeEventCalls s event"
  by (simp add: freeEvent_calls freeEventCalls_def)

lemma deliverNextEvent_calls:
  assumes "hasPendingEvent (mNanoapps s ! i)"
  shows "\<exists>ds. calls (snd (deliverNextEvent s i)) = calls s @ ds \<and> deliveryCalls 1 ds"
proof -
  obtain event rest where q: "mEventQueue (mNanoapps s ! i) = event # rest"
    using assms by (cases "mEventQueue (mNanoapps s ! i)") (simp_all add: hasPendingEvent_def)
  let ?h = "NanoappHandleEvent (mInstanceId (mNanoapps s ! i))
              (senderInstanceId (eventAt s event)) (eventType (eventAt s event))
              (eventData (eventAt s event))"
  have h: "deliveryCalls 1 [?h]"
    by (simp add: deliveryCalls_def)
  define s3 where
    "s3 = (snd (processNextEvent (s\<lparr>mCurrentApp := Some (mInstanceId (mNanoapps s ! i))\<rparr>) i))
            \<lparr>mCurrentApp := None\<rparr>"
  have p: "fst (processNextEvent (s\<lparr>mCurrentApp := Some (mInstanceId (mNanoapps s ! i))\<rparr>) i)
             = Some event"
    using q by (simp add: processNextEvent_def Let_def)
  have s3: "calls s3 = calls s @ [?h]"
    "snd (deliverNextEvent s i)
       = (if isUnreferenced (eventAt s3 event) then freeEvent s3 event else s3)"
    using q p
    by (simp_all add: s3_def deliverNextEvent_def Let_def split_beta)
       (simp add: processNextEvent_def loopCall_def Let_def eventAt_def)
  show ?thesis
  proof (cases "isUnreferenced (eventAt s3 event)")
    case True
    then have "calls (snd (deliverNextEvent s i)) = calls s @ ([?h] @ freeEventCalls s3 event)"
      using s3 by (simp add: freeEvent_calls')
    moreover have "deliveryCalls (1 + 0) ([?h] @ freeEventCalls s3 event)"
      by (rule deliveryCalls_append [OF h freeEventCalls_delivery])
    ultimately show ?thesis by (intro exI [of _ "[?h] @ freeEventCalls s3 event"]) simp
  next
    case False
    then have "calls (snd (deliverNextEvent s i)) = calls s @ [?h]"
      using s3 by simp
    then show ?thesis using h by blast
  qed
qed

lemma deliverTo_calls:
  "distinct is \<Longrightarrow> \<forall>i\<in>set is. i < length (mNanoapps s) \<Longrightarrow>
   \<exists>ds. calls (snd (deliverTo is p s)) = calls s @ ds
      \<and> deliveryCalls (length (filter (\<lambda>i. hasPendingEvent (mNanoapps s ! i)) is)) ds"
proof (induction "is" arbitrary: p s)
  case Nil
  then show ?case by simp
next
  case (Cons i "is")
  have i: "i < length (mNanoapps s)" "i \<notin> set is" "distinct is"
    using Cons.prems by simp_all
  show ?case
  proof (cases "hasPendingEvent (mNanoapps s ! i)")
    case False
    have r: "\<forall>k\<in>set is. k < length (mNanoapps s)" using Cons.prems by simp
    from Cons.IH [OF i(3) r, of p] False show ?thesis by simp
  next
    case True
    obtain pending s1 where d: "deliverNextEvent s i = (pending, s1)"
      by (cases "deliverNextEvent s i")
    have a1: "mNanoapps s1 = (mNanoapps s)[i := popEvent (mNanoapps s ! i)]"
      using deliverNextEvent_mNanoapps [of s i] d by simp
    obtain d1 where d1: "calls s1 = calls s @ d1" "deliveryCalls 1 d1"
      using deliverNextEvent_calls [OF True] d by auto
    have r: "\<forall>k\<in>set is. k < length (mNanoapps s1)" using Cons.prems a1 by simp
    have f: "filter (\<lambda>k. hasPendingEvent (mNanoapps s1 ! k)) is
           = filter (\<lambda>k. hasPendingEvent (mNanoapps s ! k)) is"
    proof (rule filter_cong [OF refl])
      fix k assume "k \<in> set is"
      then have "k \<noteq> i" using i(2) by auto
      then show "hasPendingEvent (mNanoapps s1 ! k) = hasPendingEvent (mNanoapps s ! k)"
        using a1 by simp
    qed
    from Cons.IH [OF i(3) r, of "p \<or> pending", unfolded f]
    obtain d2 where d2: "calls (snd (deliverTo is (p \<or> pending) s1)) = calls s1 @ d2"
      "deliveryCalls (length (filter (\<lambda>k. hasPendingEvent (mNanoapps s ! k)) is)) d2"
      by blast
    have step: "deliverTo (i # is) p s = deliverTo is (p \<or> pending) s1"
      using True d by simp
    have "calls (snd (deliverTo (i # is) p s)) = calls s @ (d1 @ d2)"
      using step d1(1) d2(1) by simp
    moreover have "deliveryCalls
        (length (filter (\<lambda>k. hasPendingEvent (mNanoapps s ! k)) (i # is))) (d1 @ d2)"
      using deliveryCalls_append [OF d1(2) d2(2)] True by simp
    ultimately show ?thesis by blast
  qed
qed

lemma pendingCount_round:
  "sum_list (map (\<lambda>app. length (mEventQueue app)) apps)
     = length (filter hasPendingEvent apps)
       + sum_list (map (\<lambda>app. length (mEventQueue app)) (map popEvent apps))"
proof (induction apps)
  case Nil
  then show ?case by simp
next
  case (Cons a apps)
  have "length (mEventQueue a)
          = (if hasPendingEvent a then 1 else 0) + length (mEventQueue (popEvent a))"
    by (cases "mEventQueue a") (simp_all add: hasPendingEvent_def popEvent_def)
  then show ?case using Cons.IH by simp
qed

lemma deliverEvents_calls:
  "\<exists>ds. calls (snd (deliverEvents s)) = calls s @ ds
      \<and> deliveryCalls (pendingCount s - pendingCount (snd (deliverEvents s))) ds"
proof -
  have d: "distinct [0..<length (mNanoapps s)]"
    "\<forall>i\<in>set [0..<length (mNanoapps s)]. i < length (mNanoapps s)"
    by simp_all
  have "pendingCount s
          = length (filter hasPendingEvent (mNanoapps s)) + pendingCount (snd (deliverEvents s))"
    using pendingCount_round [of "mNanoapps s"]
    by (simp add: pendingCount_def deliverEvents_mNanoapps(1))
  then have "length (filter (\<lambda>i. hasPendingEvent (mNanoapps s ! i)) [0..<length (mNanoapps s)])
          = pendingCount s - pendingCount (snd (deliverEvents s))"
    by (simp add: filter_nth_length)
  then show ?thesis
    using deliverTo_calls [OF d, of False] by (simp add: deliverEvents_def)
qed

lemma deliverEvents_pendingCount_le:
  "pendingCount (snd (deliverEvents s)) \<le> pendingCount s"
  using pendingCount_round [of "mNanoapps s"]
  by (simp add: pendingCount_def deliverEvents_mNanoapps(1))

lemma flushNanoappEventQueues_calls:
  "\<exists>ds. calls (flushNanoappEventQueues s) = calls s @ ds \<and> deliveryCalls (pendingCount s) ds"
proof (induction s rule: flushNanoappEventQueues.induct)
  case (1 s)
  obtain pending s1 where d: "deliverEvents s = (pending, s1)"
    by (cases "deliverEvents s")
  obtain d1 where d1: "calls s1 = calls s @ d1"
    "deliveryCalls (pendingCount s - pendingCount s1) d1"
    using deliverEvents_calls [of s] d by auto
  have le: "pendingCount s1 \<le> pendingCount s"
    using deliverEvents_pendingCount_le [of s] d by simp
  show ?case
  proof (cases pending)
    case True
    then have step: "flushNanoappEventQueues s = flushNanoappEventQueues s1"
      using d by (subst flushNanoappEventQueues.simps) simp
    from "1.IH" [OF d [symmetric] refl True]
    obtain d2 where d2: "calls (flushNanoappEventQueues s1) = calls s1 @ d2"
      "deliveryCalls (pendingCount s1) d2"
      by blast
    have "calls (flushNanoappEventQueues s) = calls s @ (d1 @ d2)"
      using step d1(1) d2(1) by simp
    moreover have "deliveryCalls (pendingCount s) (d1 @ d2)"
      using deliveryCalls_append [OF d1(2) d2(2)] le by simp
    ultimately show ?thesis by blast
  next
    case False
    then have r: "flushNanoappEventQueues s = s1"
      using d by (subst flushNanoappEventQueues.simps) simp
    have "\<forall>app\<in>set (mNanoapps s1). mEventQueue app = []"
      using flushNanoappEventQueues_queues [of s] r by simp
    then have "pendingCount s1 = 0"
      by (simp add: pendingCount_def)
    then show ?thesis using d1 r by auto
  qed
qed

text \<open>
  The purge of the inbound queue calls the free callbacks of the events in it, in order, and
  nothing else; no nanoapp is touched.
\<close>

lemma freeEventCalls_cong:
  "mEventBlocks s1 = mEventBlocks s \<Longrightarrow> mNanoapps s1 = mNanoapps s \<Longrightarrow>
   freeEventCalls s1 event = freeEventCalls s event"
  by (simp add: freeEventCalls_def eventAt_def lookupAppByInstanceId_def split: option.splits)

lemma freeInboundEvents_effect:
  "mEvents (freeInboundEvents s) = []
   \<and> mNanoapps (freeInboundEvents s) = mNanoapps s
   \<and> calls (freeInboundEvents s) = calls s @ concat (map (freeEventCalls s) (mEvents s))"
proof (induction s rule: freeInboundEvents.induct)
  case (1 s)
  show ?case
  proof (cases "mEvents s")
    case Nil
    then show ?thesis by (subst (1 2 3) freeInboundEvents.simps) simp
  next
    case (Cons event rest)
    let ?s1 = "freeEvent (s\<lparr>mEvents := rest\<rparr>) event"
    have step: "freeInboundEvents s = freeInboundEvents ?s1"
      using Cons by (subst freeInboundEvents.simps) simp
    have m: "mEvents ?s1 = rest" "mNanoapps ?s1 = mNanoapps s"
      "mEventBlocks ?s1 = mEventBlocks s"
      by (simp_all add: freeEvent_mEvents freeEvent_mNanoapps freeEvent_mEventBlocks)
    have c: "calls ?s1 = calls s @ freeEventCalls s event"
      by (simp add: freeEvent_calls freeEventCalls_def eventAt_def lookupAppByInstanceId_def
            split: option.splits)
    have g: "freeEventCalls ?s1 = freeEventCalls s"
      by (rule ext) (rule freeEventCalls_cong [OF m(3) m(2)])
    show ?thesis
      using "1.IH" [OF Cons] Cons m(1,2) c unfolding step g by simp
  qed
qed

text \<open>The last loop calls the end entry point of every nanoapp, from the last to the first.\<close>

lemma dvErase_last: "xs \<noteq> [] \<Longrightarrow> dvErase (length xs - Suc 0) xs = butlast xs"
  by (simp add: dvErase_def butlast_conv_take)

lemma unloadAllNanoapps_effect:
  "mNanoapps (unloadAllNanoapps s) = []
   \<and> mEvents (unloadAllNanoapps s) = mEvents s
   \<and> calls (unloadAllNanoapps s)
       = calls s @ map NanoappEnd (rev (map mInstanceId (mNanoapps s)))"
proof (induction s rule: unloadAllNanoapps.induct)
  case (1 s)
  show ?case
  proof (cases "mNanoapps s = []")
    case True
    then show ?thesis by (subst (1 2 3) unloadAllNanoapps.simps) simp
  next
    case False
    let ?s1 = "unloadNanoappAtIndex s (length (mNanoapps s) - 1)"
    have step: "unloadAllNanoapps s = unloadAllNanoapps ?s1"
      using False by (subst unloadAllNanoapps.simps) simp
    have l: "mNanoapps s ! (length (mNanoapps s) - 1) = last (mNanoapps s)"
      using False by (simp add: last_conv_nth)
    have a: "mNanoapps ?s1 = butlast (mNanoapps s)" "mEvents ?s1 = mEvents s"
      "calls ?s1 = calls s @ [NanoappEnd (mInstanceId (last (mNanoapps s)))]"
      using False l
      by (simp_all add: unloadNanoappAtIndex_def loopCall_def Let_def dvErase_last)
    have "rev (map mInstanceId (butlast (mNanoapps s) @ [last (mNanoapps s)]))
      = mInstanceId (last (mNanoapps s)) # rev (map mInstanceId (butlast (mNanoapps s)))"
      by simp
    then have "rev (map mInstanceId (mNanoapps s))
      = mInstanceId (last (mNanoapps s)) # rev (map mInstanceId (butlast (mNanoapps s)))"
      using False by simp
    then show ?thesis
      using "1.IH" [OF False] a unfolding step by simp
  qed
qed

text \<open>
  C3, amended: at the exit of its main loop \<^verbatim>\<open>run\<close> first calls \<^verbatim>\<open>deliverEvents\<close> until
  every nanoapp's queue is empty (every event pending in a queue goes to its nanoapp's
  handler), then frees each event left in the inbound queue, in order, without distributing it
  (its free callback is called, no handler receives it), then calls
  the end entry point of every nanoapp from the last index to the first; it returns with no
  nanoapp and no inbound event.
\<close>

theorem C3_runShutdown_order:
  assumes "flushed = flushNanoappEventQueues s"
  shows "(\<forall>app\<in>set (mNanoapps flushed). mEventQueue app = [])
       \<and> (\<exists>deliveries. calls flushed = calls s @ deliveries
             \<and> deliveryCalls (pendingCount s) deliveries)
       \<and> deliveryCalls 0 (concat (map (freeEventCalls flushed) (mEvents s)))
       \<and> calls (runShutdown s)
           = calls flushed
             @ concat (map (freeEventCalls flushed) (mEvents s))
             @ map NanoappEnd (rev (map mInstanceId (mNanoapps s)))
       \<and> mNanoapps (runShutdown s) = []
       \<and> mEvents (runShutdown s) = []"
proof -
  let ?s2 = "freeInboundEvents flushed"
  have q: "\<forall>app\<in>set (mNanoapps flushed). mEventQueue app = []"
    unfolding assms by (rule flushNanoappEventQueues_queues)
  have f: "mEvents flushed = mEvents s"
    "map mInstanceId (mNanoapps flushed) = map mInstanceId (mNanoapps s)"
    unfolding assms using flushNanoappEventQueues_frame [of s] by simp_all
  have p: "mEvents ?s2 = []" "mNanoapps ?s2 = mNanoapps flushed"
    "calls ?s2 = calls flushed @ concat (map (freeEventCalls flushed) (mEvents s))"
    using freeInboundEvents_effect [of flushed] f(1) by simp_all
  have r: "runShutdown s = unloadAllNanoapps ?s2"
    by (simp add: runShutdown_def assms)
  have u: "mNanoapps (runShutdown s) = []" "mEvents (runShutdown s) = []"
    "calls (runShutdown s)
       = calls flushed @ concat (map (freeEventCalls flushed) (mEvents s))
         @ map NanoappEnd (rev (map mInstanceId (mNanoapps s)))"
    unfolding r using unloadAllNanoapps_effect [of ?s2] p f(2) by simp_all
  have v: "\<exists>deliveries. calls flushed = calls s @ deliveries
             \<and> deliveryCalls (pendingCount s) deliveries"
    unfolding assms by (rule flushNanoappEventQueues_calls)
  have w: "deliveryCalls 0 (concat (map (freeEventCalls flushed) evs))" for evs
    by (induction evs)
       (simp_all add: deliveryCalls_append [OF freeEventCalls_delivery, simplified])
  show ?thesis using q u v w [of "mEvents s"] by simp
qed

theorem C3_runShutdown_order_witness:
  "calls (runShutdown stoppedLoop) = [FreeCallback 42 0x100 7 None, NanoappEnd 1]
   \<and> mNanoapps (runShutdown stoppedLoop) = []"
proof -
  have e: "flushNanoappEventQueues stoppedLoop = stoppedLoop"
    by (simp add: flushNanoappEventQueues.simps deliverEvents_def stoppedLoop_def mkNanoapp_def
          hasPendingEvent_def)
  from C3_runShutdown_order [OF e [symmetric]]
  have "calls (runShutdown stoppedLoop)
          = calls stoppedLoop @ concat (map (freeEventCalls stoppedLoop) (mEvents stoppedLoop))
            @ map NanoappEnd (rev (map mInstanceId (mNanoapps stoppedLoop)))"
    "mNanoapps (runShutdown stoppedLoop) = []"
    by simp_all
  then show ?thesis
    by (simp add: stoppedLoop_def freeEventCalls_def eventAt_def newEvent_def mkNanoapp_def
          lookupAppByInstanceId_def kSystemInstanceId_def)
qed

end
